theory Spec2Isabelle
  imports Complex_Main "HOL-Library.Product_Lexorder"
begin

section \<open>The T3 player: alpha-beta minimax search (t3_player.py)\<close>

subsection \<open>Numbers used as utilities and bounds\<close>

text \<open>
  The search handles the Python numbers \<^verbatim>\<open>float('-inf')\<close>, \<^verbatim>\<open>float('inf')\<close>,
  \<^verbatim>\<open>0.5\<close>, \<^verbatim>\<open>0\<close> and \<^verbatim>\<open>1\<close>. It never does arithmetic on them: they are only
  compared (\<^verbatim>\<open><\<close>, \<^verbatim>\<open>>\<close>, \<^verbatim>\<open><=\<close>, \<^verbatim>\<open>==\<close>) and passed through \<^verbatim>\<open>max\<close> and \<^verbatim>\<open>min\<close>.
  Python compares an int with a float by value, so a finite number is a rational here and
  the two infinities are constructors of their own.
\<close>

datatype score = NegInf | Fin rat | PosInf

instantiation score :: linorder
begin

fun less_eq_score :: "score \<Rightarrow> score \<Rightarrow> bool" where
  "less_eq_score NegInf y = True"
| "less_eq_score (Fin x) NegInf = False"
| "less_eq_score (Fin x) (Fin y) = (x \<le> y)"
| "less_eq_score (Fin x) PosInf = True"
| "less_eq_score PosInf NegInf = False"
| "less_eq_score PosInf (Fin y) = False"
| "less_eq_score PosInf PosInf = True"

fun less_score :: "score \<Rightarrow> score \<Rightarrow> bool" where
  "less_score NegInf NegInf = False"
| "less_score NegInf (Fin y) = True"
| "less_score NegInf PosInf = True"
| "less_score (Fin x) NegInf = False"
| "less_score (Fin x) (Fin y) = (x < y)"
| "less_score (Fin x) PosInf = True"
| "less_score PosInf y = False"

instance
proof
  fix x y z :: score
  show "(x < y) = (x \<le> y \<and> \<not> y \<le> x)"
    by (cases x; cases y) auto
  show "x \<le> x"
    by (cases x) auto
  show "x \<le> y \<Longrightarrow> y \<le> z \<Longrightarrow> x \<le> z"
    by (cases x; cases y; cases z) auto
  show "x \<le> y \<Longrightarrow> y \<le> x \<Longrightarrow> x = y"
    by (cases x; cases y) auto
  show "x \<le> y \<or> y \<le> x"
    by (cases x; cases y) auto
qed

end

subsection \<open>The state abstraction and the actions\<close>

text \<open>
  The player imports its states from \<^verbatim>\<open>t3_state\<close>, which is not part of the sources: the
  search only calls \<^verbatim>\<open>is_win()\<close>, \<^verbatim>\<open>is_tie()\<close> and \<^verbatim>\<open>get_transitions()\<close> on a state
  and \<^verbatim>\<open><\<close> on two actions. The three methods are taken as parameters, a record of
  functions over an arbitrary type of states; the actions are any linearly ordered type.
\<close>

record ('s, 'a) T3State =
  is_win :: "'s \<Rightarrow> bool"
  is_tie :: "'s \<Rightarrow> bool"
  get_transitions :: "'s \<Rightarrow> ('a \<times> 's) list"

text \<open>
  Modelled from the spec: the action type \<^verbatim>\<open>T3Action\<close> of the absent \<^verbatim>\<open>t3_state\<close>,
  "column ascending, then row ascending, then move number ascending". It is the triple
  (column, row, move number) under the lexicographic order on products.
\<close>

type_synonym T3Action = "nat \<times> nat \<times> nat"

text \<open>
  The incumbent action \<^verbatim>\<open>optimal_move\<close> starts as \<^verbatim>\<open>None\<close>, so the type of an incumbent
  is \<open>'a option\<close>. What \<^verbatim>\<open>action < None\<close> does is up to the absent class of the actions;
  the model takes it to raise, as Python does for a class that defines no order against
  \<^verbatim>\<open>None\<close>. It is the only exception the player's own code can raise, and
  \<open>alphabeta_no_raise\<close> below shows that no search ever gets there.
\<close>

datatype exn = TypeError

subsection \<open>The tie-break helpers\<close>

definition best_choice_max ::
  "score \<Rightarrow> score \<Rightarrow> 'a::linorder \<Rightarrow> 'a option \<Rightarrow> int \<Rightarrow> int \<Rightarrow> exn + (score \<times> 'a option \<times> int)" where
  "best_choice_max utility_score best_score action optimal_move new_depth lowest_depth =
     (if utility_score > best_score then Inr (utility_score, Some action, new_depth)
      else if utility_score = best_score then
        (if new_depth < lowest_depth then Inr (utility_score, Some action, new_depth)
         else if new_depth = lowest_depth then
           (case optimal_move of
              None \<Rightarrow> Inl TypeError
            | Some m \<Rightarrow> if action < m then Inr (best_score, Some action, lowest_depth)
                        else Inr (best_score, optimal_move, lowest_depth))
         else Inr (best_score, optimal_move, lowest_depth))
      else Inr (best_score, optimal_move, lowest_depth))"

definition best_choice_min ::
  "score \<Rightarrow> score \<Rightarrow> 'a::linorder \<Rightarrow> 'a option \<Rightarrow> int \<Rightarrow> int \<Rightarrow> exn + (score \<times> 'a option \<times> int)" where
  "best_choice_min utility_score best_score action optimal_move new_depth lowest_depth =
     (if utility_score < best_score then Inr (utility_score, Some action, new_depth)
      else if utility_score = best_score then
        (if new_depth < lowest_depth then Inr (utility_score, Some action, new_depth)
         else if new_depth = lowest_depth then
           (case optimal_move of
              None \<Rightarrow> Inl TypeError
            | Some m \<Rightarrow> if action < m then Inr (best_score, Some action, lowest_depth)
                        else Inr (best_score, optimal_move, lowest_depth))
         else Inr (best_score, optimal_move, lowest_depth))
      else Inr (best_score, optimal_move, lowest_depth))"

subsection \<open>The recursive search\<close>

text \<open>
  \<^verbatim>\<open>alphabeta\<close> recurses on the children of a state, and nothing in the player bounds the
  recursion: on a state abstraction with an infinite play it never returns. The first
  argument is fuel, the number of nested calls allowed; \<open>None\<close> is a search that has not
  returned within it. The two \<^verbatim>\<open>for\<close> loops are \<open>max_loop\<close> and \<open>min_loop\<close>: their
  arguments are the moves still to visit and the loop's variables \<^verbatim>\<open>a\<close>, \<^verbatim>\<open>B\<close>,
  \<^verbatim>\<open>best_score\<close>, \<^verbatim>\<open>optimal_move\<close> and \<^verbatim>\<open>lowest_depth\<close>; \<^verbatim>\<open>break\<close> returns at once.
  (The loops also overwrite \<^verbatim>\<open>is_max\<close> and \<^verbatim>\<open>is_min\<close>, which are read only by the
  recursive call in the same iteration.)
\<close>

function alphabeta ::
  "nat \<Rightarrow> ('s, 'a::linorder) T3State \<Rightarrow> 's \<Rightarrow> score \<Rightarrow> score \<Rightarrow> bool \<Rightarrow> bool \<Rightarrow> int
     \<Rightarrow> (exn + (score \<times> 'a option \<times> int)) option"
and max_loop ::
  "nat \<Rightarrow> ('s, 'a::linorder) T3State \<Rightarrow> ('a \<times> 's) list \<Rightarrow> score \<Rightarrow> score \<Rightarrow> int
     \<Rightarrow> score \<Rightarrow> 'a option \<Rightarrow> int \<Rightarrow> (exn + (score \<times> 'a option \<times> int)) option"
and min_loop ::
  "nat \<Rightarrow> ('s, 'a::linorder) T3State \<Rightarrow> ('a \<times> 's) list \<Rightarrow> score \<Rightarrow> score \<Rightarrow> int
     \<Rightarrow> score \<Rightarrow> 'a option \<Rightarrow> int \<Rightarrow> (exn + (score \<times> 'a option \<times> int)) option"
where
  "alphabeta 0 T state a B is_max is_min node_depth = None"
| "alphabeta (Suc fuel) T state a B is_max is_min node_depth =
     (if is_tie T state then Some (Inr (Fin (1/2), None, node_depth))
      else if is_win T state then
        (if \<not> is_max \<and> is_min then Some (Inr (Fin 1, None, node_depth))
         else Some (Inr (Fin 0, None, node_depth)))
      else if is_max \<and> \<not> is_min then
        max_loop fuel T (get_transitions T state) a B node_depth NegInf None node_depth
      else if is_min \<and> \<not> is_max then
        min_loop fuel T (get_transitions T state) a B node_depth PosInf None node_depth
      else Some (Inr (Fin 0, None, node_depth)))"
| "max_loop fuel T [] a B node_depth best_score optimal_move lowest_depth =
     Some (Inr (best_score, optimal_move, lowest_depth))"
| "max_loop fuel T ((action, child) # moves) a B node_depth best_score optimal_move lowest_depth =
     (case alphabeta fuel T child a B False True (node_depth + 1) of
        None \<Rightarrow> None
      | Some (Inl e) \<Rightarrow> Some (Inl e)
      | Some (Inr (utility_score, _, new_depth)) \<Rightarrow>
          (case best_choice_max utility_score best_score action optimal_move new_depth lowest_depth of
             Inl e \<Rightarrow> Some (Inl e)
           | Inr (best_score', optimal_move', lowest_depth') \<Rightarrow>
               if B \<le> max a best_score'
               then Some (Inr (best_score', optimal_move', lowest_depth'))
               else max_loop fuel T moves (max a best_score') B node_depth
                      best_score' optimal_move' lowest_depth'))"
| "min_loop fuel T [] a B node_depth best_score optimal_move lowest_depth =
     Some (Inr (best_score, optimal_move, lowest_depth))"
| "min_loop fuel T ((action, child) # moves) a B node_depth best_score optimal_move lowest_depth =
     (case alphabeta fuel T child a B True False (node_depth + 1) of
        None \<Rightarrow> None
      | Some (Inl e) \<Rightarrow> Some (Inl e)
      | Some (Inr (utility_score, _, new_depth)) \<Rightarrow>
          (case best_choice_min utility_score best_score action optimal_move new_depth lowest_depth of
             Inl e \<Rightarrow> Some (Inl e)
           | Inr (best_score', optimal_move', lowest_depth') \<Rightarrow>
               if min B best_score' \<le> a
               then Some (Inr (best_score', optimal_move', lowest_depth'))
               else min_loop fuel T moves a (min B best_score') node_depth
                      best_score' optimal_move' lowest_depth'))"
  by pat_completeness auto
termination
  by (relation "inv_image (less_than <*lex*> less_than) (\<lambda>x. case x of
        Inl (fuel, T, state, rest) \<Rightarrow> (2 * fuel, 0)
      | Inr (Inl (fuel, T, moves, rest)) \<Rightarrow> (2 * fuel + 1, length moves)
      | Inr (Inr (fuel, T, moves, rest)) \<Rightarrow> (2 * fuel + 1, length moves))") auto

text \<open>
  The entry point \<^verbatim>\<open>choose\<close> (the name \<open>choose\<close> is taken by the binomial coefficient).
\<close>

definition choose_move :: "nat \<Rightarrow> ('s, 'a::linorder) T3State \<Rightarrow> 's \<Rightarrow> (exn + 'a option) option" where
  "choose_move fuel T state =
     (case alphabeta fuel T state NegInf PosInf True False 0 of
        None \<Rightarrow> None
      | Some (Inl e) \<Rightarrow> Some (Inl e)
      | Some (Inr (best_score, optimal_action, _)) \<Rightarrow> Some (Inr optimal_action))"

subsection \<open>The contract of the state abstraction\<close>

text \<open>
  The spec takes for granted that every sequence of moves ends in a win or a tie after
  finitely many plies. \<open>plays_end T s\<close> says so for the plays from \<open>s\<close>: a terminal state
  is fine, and so is a state all of whose children are (a list of children is finite, so
  this is the well-founded part of the transition relation). \<open>contract T s\<close> asks in
  addition that every non-terminal state met on the way enumerates at least one transition.
\<close>

inductive plays_end :: "('s, 'a) T3State \<Rightarrow> 's \<Rightarrow> bool" for T where
  terminal: "is_tie T s \<or> is_win T s \<Longrightarrow> plays_end T s"
| expand: "(\<And>action child. (action, child) \<in> set (get_transitions T s) \<Longrightarrow> plays_end T child)
     \<Longrightarrow> plays_end T s"

inductive contract :: "('s, 'a) T3State \<Rightarrow> 's \<Rightarrow> bool" for T where
  terminal: "is_tie T s \<or> is_win T s \<Longrightarrow> contract T s"
| expand: "get_transitions T s \<noteq> [] \<Longrightarrow>
     (\<And>action child. (action, child) \<in> set (get_transitions T s) \<Longrightarrow> contract T child)
     \<Longrightarrow> contract T s"

text \<open>
  \<open>terminal_in T s is_max k u\<close>: some play of exactly \<open>k\<close> plies from \<open>s\<close> ends in a terminal
  state whose utility, as the search scores it, is \<open>u\<close>. \<open>is_max\<close> tells whether \<open>s\<close> is a
  max node; the role alternates with every ply.
\<close>

fun terminal_in :: "('s, 'a) T3State \<Rightarrow> 's \<Rightarrow> bool \<Rightarrow> nat \<Rightarrow> score \<Rightarrow> bool" where
  "terminal_in T s is_max 0 u =
     (if is_tie T s then u = Fin (1/2)
      else if is_win T s then u = (if is_max then Fin 0 else Fin 1)
      else False)"
| "terminal_in T s is_max (Suc k) u =
     (\<not> is_tie T s \<and> \<not> is_win T s \<and>
      (\<exists>(action, child) \<in> set (get_transitions T s). terminal_in T child (\<not> is_max) k u))"

text \<open>
  \<open>plays_within T s h\<close>: no play from \<open>s\<close> has more than \<open>h\<close> plies. On a board the
  bound is the number of empty cells.
\<close>

fun plays_within :: "('s, 'a) T3State \<Rightarrow> 's \<Rightarrow> nat \<Rightarrow> bool" where
  "plays_within T s 0 = (is_tie T s \<or> is_win T s)"
| "plays_within T s (Suc h) =
     (is_tie T s \<or> is_win T s \<or>
      (\<forall>(action, child) \<in> set (get_transitions T s). plays_within T child h))"

subsection \<open>The calls made by a search\<close>

text \<open>
  A frame is either a call of \<^verbatim>\<open>alphabeta\<close> with its six arguments, or one of its loops
  about to visit the first of the remaining moves, with the loop's variables. \<open>calls T f g\<close>:
  the computation in frame \<open>f\<close> goes on to frame \<open>g\<close>: a call on a non-terminal state enters
  the loop its flags select, a loop calls \<^verbatim>\<open>alphabeta\<close> on the child it visits and, when
  that call has returned and the loop does not break, goes on with the rest of the moves.
\<close>

datatype ('s, 'a) frame =
  Call 's score score bool bool int
| MaxIter "('a \<times> 's) list" score score int score "'a option" int
| MinIter "('a \<times> 's) list" score score int score "'a option" int

inductive calls :: "('s, 'a::linorder) T3State \<Rightarrow> ('s, 'a) frame \<Rightarrow> ('s, 'a) frame \<Rightarrow> bool" for T where
  enter_max: "\<not> is_tie T state \<Longrightarrow> \<not> is_win T state \<Longrightarrow> is_max \<and> \<not> is_min \<Longrightarrow>
     calls T (Call state a B is_max is_min node_depth)
             (MaxIter (get_transitions T state) a B node_depth NegInf None node_depth)"
| enter_min: "\<not> is_tie T state \<Longrightarrow> \<not> is_win T state \<Longrightarrow> \<not> (is_max \<and> \<not> is_min) \<Longrightarrow>
     is_min \<and> \<not> is_max \<Longrightarrow>
     calls T (Call state a B is_max is_min node_depth)
             (MinIter (get_transitions T state) a B node_depth PosInf None node_depth)"
| max_call:
    "calls T (MaxIter ((action, child) # moves) a B node_depth best_score optimal_move lowest_depth)
             (Call child a B False True (node_depth + 1))"
| max_next: "alphabeta fuel T child a B False True (node_depth + 1) = Some (Inr (utility_score, x, new_depth)) \<Longrightarrow>
     best_choice_max utility_score best_score action optimal_move new_depth lowest_depth
       = Inr (best_score', optimal_move', lowest_depth') \<Longrightarrow>
     \<not> B \<le> max a best_score' \<Longrightarrow>
     calls T (MaxIter ((action, child) # moves) a B node_depth best_score optimal_move lowest_depth)
             (MaxIter moves (max a best_score') B node_depth best_score' optimal_move' lowest_depth')"
| min_call:
    "calls T (MinIter ((action, child) # moves) a B node_depth best_score optimal_move lowest_depth)
             (Call child a B True False (node_depth + 1))"
| min_next: "alphabeta fuel T child a B True False (node_depth + 1) = Some (Inr (utility_score, x, new_depth)) \<Longrightarrow>
     best_choice_min utility_score best_score action optimal_move new_depth lowest_depth
       = Inr (best_score', optimal_move', lowest_depth') \<Longrightarrow>
     \<not> min B best_score' \<le> a \<Longrightarrow>
     calls T (MinIter ((action, child) # moves) a B node_depth best_score optimal_move lowest_depth)
             (MinIter moves a (min B best_score') node_depth best_score' optimal_move' lowest_depth')"

text \<open>
  What holds of every frame of a search that starts on a state all of whose plays end:
  the plays from the state of a call end, and so do the plays from every child a loop has
  still to visit; a loop's \<^verbatim>\<open>lowest_depth\<close> is at least the depth of its node, and is that
  depth as long as the loop has no \<^verbatim>\<open>optimal_move\<close>.
\<close>

fun frame_ok :: "('s, 'a::linorder) T3State \<Rightarrow> ('s, 'a) frame \<Rightarrow> bool" where
  "frame_ok T (Call state a B is_max is_min node_depth) = plays_end T state"
| "frame_ok T (MaxIter moves a B node_depth best_score optimal_move lowest_depth) =
     ((\<forall>(action, child) \<in> set moves. plays_end T child) \<and> node_depth \<le> lowest_depth \<and>
      (optimal_move = None \<longrightarrow> lowest_depth = node_depth))"
| "frame_ok T (MinIter moves a B node_depth best_score optimal_move lowest_depth) =
     ((\<forall>(action, child) \<in> set moves. plays_end T child) \<and> node_depth \<le> lowest_depth \<and>
      (optimal_move = None \<longrightarrow> lowest_depth = node_depth))"


subsection \<open>Exhaustive minimax, for comparison\<close>

text \<open>
  The search of the spec's "pruning equivalence": the same walk and the same tie-break
  helpers, with the bounds disabled, so that no loop ever breaks and every child of every
  non-terminal state is evaluated.
\<close>

function minimax ::
  "nat \<Rightarrow> ('s, 'a::linorder) T3State \<Rightarrow> 's \<Rightarrow> bool \<Rightarrow> bool \<Rightarrow> int
     \<Rightarrow> (exn + (score \<times> 'a option \<times> int)) option"
and max_all ::
  "nat \<Rightarrow> ('s, 'a::linorder) T3State \<Rightarrow> ('a \<times> 's) list \<Rightarrow> int
     \<Rightarrow> score \<Rightarrow> 'a option \<Rightarrow> int \<Rightarrow> (exn + (score \<times> 'a option \<times> int)) option"
and min_all ::
  "nat \<Rightarrow> ('s, 'a::linorder) T3State \<Rightarrow> ('a \<times> 's) list \<Rightarrow> int
     \<Rightarrow> score \<Rightarrow> 'a option \<Rightarrow> int \<Rightarrow> (exn + (score \<times> 'a option \<times> int)) option"
where
  "minimax 0 T state is_max is_min node_depth = None"
| "minimax (Suc fuel) T state is_max is_min node_depth =
     (if is_tie T state then Some (Inr (Fin (1/2), None, node_depth))
      else if is_win T state then
        (if \<not> is_max \<and> is_min then Some (Inr (Fin 1, None, node_depth))
         else Some (Inr (Fin 0, None, node_depth)))
      else if is_max \<and> \<not> is_min then
        max_all fuel T (get_transitions T state) node_depth NegInf None node_depth
      else if is_min \<and> \<not> is_max then
        min_all fuel T (get_transitions T state) node_depth PosInf None node_depth
      else Some (Inr (Fin 0, None, node_depth)))"
| "max_all fuel T [] node_depth best_score optimal_move lowest_depth =
     Some (Inr (best_score, optimal_move, lowest_depth))"
| "max_all fuel T ((action, child) # moves) node_depth best_score optimal_move lowest_depth =
     (case minimax fuel T child False True (node_depth + 1) of
        None \<Rightarrow> None
      | Some (Inl e) \<Rightarrow> Some (Inl e)
      | Some (Inr (utility_score, _, new_depth)) \<Rightarrow>
          (case best_choice_max utility_score best_score action optimal_move new_depth lowest_depth of
             Inl e \<Rightarrow> Some (Inl e)
           | Inr (best_score', optimal_move', lowest_depth') \<Rightarrow>
               max_all fuel T moves node_depth best_score' optimal_move' lowest_depth'))"
| "min_all fuel T [] node_depth best_score optimal_move lowest_depth =
     Some (Inr (best_score, optimal_move, lowest_depth))"
| "min_all fuel T ((action, child) # moves) node_depth best_score optimal_move lowest_depth =
     (case minimax fuel T child True False (node_depth + 1) of
        None \<Rightarrow> None
      | Some (Inl e) \<Rightarrow> Some (Inl e)
      | Some (Inr (utility_score, _, new_depth)) \<Rightarrow>
          (case best_choice_min utility_score best_score action optimal_move new_depth lowest_depth of
             Inl e \<Rightarrow> Some (Inl e)
           | Inr (best_score', optimal_move', lowest_depth') \<Rightarrow>
               min_all fuel T moves node_depth best_score' optimal_move' lowest_depth'))"
  by pat_completeness auto
termination
  by (relation "inv_image (less_than <*lex*> less_than) (\<lambda>x. case x of
        Inl (fuel, T, state, rest) \<Rightarrow> (2 * fuel, 0)
      | Inr (Inl (fuel, T, moves, rest)) \<Rightarrow> (2 * fuel + 1, length moves)
      | Inr (Inr (fuel, T, moves, rest)) \<Rightarrow> (2 * fuel + 1, length moves))") auto

text \<open>
  What a search with the window \<open>(a, B)\<close> may return as utility \<open>v\<close> when the utility of the
  exhaustive search is \<open>w\<close>: the exact utility inside the window, an upper bound at or
  below \<open>a\<close>, a lower bound at or above \<open>B\<close>.
\<close>

definition fail_soft :: "score \<Rightarrow> score \<Rightarrow> score \<Rightarrow> score \<Rightarrow> bool" where
  "fail_soft a B v w \<longleftrightarrow> (v \<le> a \<longrightarrow> w \<le> v) \<and> (B \<le> v \<longrightarrow> v \<le> w) \<and> (a < v \<and> v < B \<longrightarrow> v = w)"

subsection \<open>Finite game trees as a state abstraction\<close>

text \<open>
  A concrete state abstraction to run the search on: a state is a node that carries the
  answers of \<^verbatim>\<open>is_win()\<close> and \<^verbatim>\<open>is_tie()\<close> and the list \<^verbatim>\<open>get_transitions()\<close> returns.
\<close>

datatype 'a game_tree =
  Node (node_win: bool) (node_tie: bool) (node_moves: "('a \<times> 'a game_tree) list")

definition tree_ops :: "('a game_tree, 'a) T3State" where
  "tree_ops = \<lparr>is_win = node_win, is_tie = node_tie, get_transitions = node_moves\<rparr>"

definition tie_leaf :: "T3Action game_tree" where
  "tie_leaf = Node False True []"

definition win_leaf :: "T3Action game_tree" where
  "win_leaf = Node True False []"

text \<open>A full board on which the last move completed a line: both tests answer true.\<close>

definition win_and_tie_leaf :: "T3Action game_tree" where
  "win_and_tie_leaf = Node True True []"

text \<open>
  \<open>last_move\<close> has one move left, to a tie. In \<open>pruned_game\<close> the first move
  \<open>(0,0,1)\<close> leads to a tie two plies later; after the second move
  \<open>(0,1,1)\<close> the opponent can either tie at once or win at once.
\<close>

definition last_move :: "T3Action game_tree" where
  "last_move = Node False False [((0,2,3), tie_leaf)]"

definition slow_tie :: "T3Action game_tree" where
  "slow_tie = Node False False [((0,1,2), last_move)]"

definition tie_or_loss :: "T3Action game_tree" where
  "tie_or_loss = Node False False [((0,0,2), tie_leaf), ((0,2,2), win_leaf)]"

definition pruned_game :: "T3Action game_tree" where
  "pruned_game = Node False False [((0,0,1), slow_tie), ((0,1,1), tie_or_loss)]"

text \<open>
  In \<open>depth_game\<close> both moves are worth a tie. After the first move \<open>(0,0,1)\<close> the tie
  comes two plies later, at depth 3. After the second move \<open>(0,1,1)\<close> the opponent can
  tie at once, at depth 2, or, with the reply listed first, one ply later, at depth 3.
\<close>

definition deep_or_shallow_tie :: "T3Action game_tree" where
  "deep_or_shallow_tie = Node False False [((0,0,2), last_move), ((0,2,2), tie_leaf)]"

definition depth_game :: "T3Action game_tree" where
  "depth_game = Node False False [((0,0,1), slow_tie), ((0,1,1), deep_or_shallow_tie)]"

text \<open>A non-terminal state with one move, to a non-terminal state that has a move to a
  non-terminal state without any move.\<close>

definition dead_end :: "T3Action game_tree" where
  "dead_end = Node False False []"

definition dead_end_game :: "T3Action game_tree" where
  "dead_end_game = Node False False [((0,0,1), Node False False [((0,1,2), dead_end)])]"

section \<open>Properties\<close>

subsection \<open>Evaluating the example trees\<close>

lemma contract_tree_ops:
  "contract tree_ops (Node w t ms) \<longleftrightarrow>
     t \<or> w \<or> (ms \<noteq> [] \<and> (\<forall>(action, child) \<in> set ms. contract tree_ops child))"
  by (subst contract.simps) (auto simp: tree_ops_def)

lemma contract_pruned_game: "contract tree_ops pruned_game"
  by (simp add: contract_tree_ops pruned_game_def slow_tie_def last_move_def tie_or_loss_def
      tie_leaf_def win_leaf_def)

lemma contract_slow_tie: "contract tree_ops slow_tie"
  by (simp add: contract_tree_ops slow_tie_def last_move_def tie_leaf_def)

lemma contract_tie_leaf: "contract tree_ops tie_leaf"
  by (simp add: contract_tree_ops tie_leaf_def)

lemma slow_tie_search:
  "alphabeta 3 tree_ops slow_tie NegInf PosInf False True 1 = Some (Inr (Fin (1/2), Some (0,1,2), 3))"
  by (simp add: tree_ops_def slow_tie_def last_move_def tie_leaf_def best_choice_max_def
      best_choice_min_def eval_nat_numeral max_loop.simps(2) min_loop.simps(2))

lemma pruned_game_search:
  "alphabeta 4 tree_ops pruned_game NegInf PosInf True False 0
     = Some (Inr (Fin (1/2), Some (0,1,1), 2))"
  by (simp add: tree_ops_def pruned_game_def slow_tie_def last_move_def tie_or_loss_def
      tie_leaf_def win_leaf_def best_choice_max_def best_choice_min_def eval_nat_numeral
      max_loop.simps(2) min_loop.simps(2))

subsection \<open>The tie-break helpers\<close>

text \<open>
  Claim C2. In \<^verbatim>\<open>best_choice_max\<close> and \<^verbatim>\<open>best_choice_min\<close> alike: when the candidate has
  the incumbent's utility and the incumbent's depth, and its action is strictly less than
  the incumbent's action, the result takes the candidate's action and keeps the incumbent's
  utility and depth; in every other case of equal utility and equal depth the incumbent
  triple is returned unchanged. The order on actions is the one of the action type, in the
  witness the order of \<open>T3Action\<close>: column, then row, then move number.
\<close>

theorem best_choice_equal_utility_equal_depth:
  "(action < m \<longrightarrow>
      best_choice_max u u action (Some m) d d = Inr (u, Some action, d) \<and>
      best_choice_min u u action (Some m) d d = Inr (u, Some action, d)) \<and>
   (\<not> action < m \<longrightarrow>
      best_choice_max u u action (Some m) d d = Inr (u, Some m, d) \<and>
      best_choice_min u u action (Some m) d d = Inr (u, Some m, d))"
  by (simp add: best_choice_max_def best_choice_min_def)

theorem best_choice_equal_utility_equal_depth_witness:
  "((0,1,2) :: T3Action) < (0,2,1) \<and>
   best_choice_max (Fin (1/2)) (Fin (1/2)) ((0,1,2) :: T3Action) (Some (0,2,1)) 3 3
     = Inr (Fin (1/2), Some (0,1,2), 3) \<and>
   best_choice_min (Fin (1/2)) (Fin (1/2)) ((0,1,2) :: T3Action) (Some (0,2,1)) 3 3
     = Inr (Fin (1/2), Some (0,1,2), 3) \<and>
   \<not> ((1,0,2) :: T3Action) < (0,2,1) \<and>
   best_choice_max (Fin (1/2)) (Fin (1/2)) ((1,0,2) :: T3Action) (Some (0,2,1)) 3 3
     = Inr (Fin (1/2), Some (0,2,1), 3) \<and>
   best_choice_min (Fin (1/2)) (Fin (1/2)) ((1,0,2) :: T3Action) (Some (0,2,1)) 3 3
     = Inr (Fin (1/2), Some (0,2,1), 3)"
  using best_choice_equal_utility_equal_depth [of "(0,1,2) :: T3Action" "(0,2,1)" "Fin (1/2)" 3]
        best_choice_equal_utility_equal_depth [of "(1,0,2) :: T3Action" "(0,2,1)" "Fin (1/2)" 3]
  by simp

text \<open>
  In \<^verbatim>\<open>best_choice_max\<close> and \<^verbatim>\<open>best_choice_min\<close> alike: a candidate whose utility
  equals the incumbent best utility and whose depth is strictly smaller replaces the
  incumbent, whatever the two actions are: the result is the candidate's utility, action
  and depth.
\<close>

lemma best_choice_smaller_depth:
  "new_depth < lowest_depth \<Longrightarrow>
   best_choice_max u u action optimal_move new_depth lowest_depth
     = Inr (u, Some action, new_depth) \<and>
   best_choice_min u u action optimal_move new_depth lowest_depth
     = Inr (u, Some action, new_depth)"
  by (simp add: best_choice_max_def best_choice_min_def)

text \<open>
  The helpers raise only when the candidate ties with an incumbent that has no action at the
  incumbent's depth. Two ways to exclude that: the candidate lies deeper than an incumbent
  without action, or the candidate beats an incumbent without action.
\<close>

lemma best_choice_max_no_raise:
  assumes "om = None \<longrightarrow> ld < nd"
  obtains (replace) "best_choice_max u bs action om nd ld = Inr (u, Some action, nd)"
  | (keep) om' where "best_choice_max u bs action om nd ld = Inr (bs, om', ld)"
      "om' = None \<longrightarrow> om = None"
proof (cases om)
  case None
  with assms have "best_choice_max u bs action om nd ld = Inr (u, Some action, nd) \<or>
    best_choice_max u bs action om nd ld = Inr (bs, None, ld)"
    by (auto simp: best_choice_max_def)
  with None replace keep show ?thesis by blast
next
  case (Some m)
  then have "best_choice_max u bs action om nd ld = Inr (u, Some action, nd) \<or>
    best_choice_max u bs action om nd ld = Inr (bs, Some action, ld) \<or>
    best_choice_max u bs action om nd ld = Inr (bs, Some m, ld)"
    by (auto simp: best_choice_max_def)
  with replace keep show ?thesis by blast
qed

lemma best_choice_min_no_raise:
  assumes "om = None \<longrightarrow> ld < nd"
  obtains (replace) "best_choice_min u bs action om nd ld = Inr (u, Some action, nd)"
  | (keep) om' where "best_choice_min u bs action om nd ld = Inr (bs, om', ld)"
      "om' = None \<longrightarrow> om = None"
proof (cases om)
  case None
  with assms have "best_choice_min u bs action om nd ld = Inr (u, Some action, nd) \<or>
    best_choice_min u bs action om nd ld = Inr (bs, None, ld)"
    by (auto simp: best_choice_min_def)
  with None replace keep show ?thesis by blast
next
  case (Some m)
  then have "best_choice_min u bs action om nd ld = Inr (u, Some action, nd) \<or>
    best_choice_min u bs action om nd ld = Inr (bs, Some action, ld) \<or>
    best_choice_min u bs action om nd ld = Inr (bs, Some m, ld)"
    by (auto simp: best_choice_min_def)
  with replace keep show ?thesis by blast
qed

lemma best_choice_max_incumbent:
  assumes "om = None \<longrightarrow> bs < u"
  obtains (replace) "best_choice_max u bs action om nd ld = Inr (u, Some action, nd)"
  | (keep) m where "om \<noteq> None" "best_choice_max u bs action om nd ld = Inr (bs, Some m, ld)"
proof (cases om)
  case None
  with assms have "best_choice_max u bs action om nd ld = Inr (u, Some action, nd)"
    by (auto simp: best_choice_max_def)
  with replace show ?thesis by blast
next
  case (Some m)
  then have "best_choice_max u bs action om nd ld = Inr (u, Some action, nd) \<or>
    best_choice_max u bs action om nd ld = Inr (bs, Some action, ld) \<or>
    best_choice_max u bs action om nd ld = Inr (bs, Some m, ld)"
    by (auto simp: best_choice_max_def)
  with Some replace keep show ?thesis by blast
qed

lemma best_choice_min_incumbent:
  assumes "om = None \<longrightarrow> u < bs"
  obtains (replace) "best_choice_min u bs action om nd ld = Inr (u, Some action, nd)"
  | (keep) m where "om \<noteq> None" "best_choice_min u bs action om nd ld = Inr (bs, Some m, ld)"
proof (cases om)
  case None
  with assms have "best_choice_min u bs action om nd ld = Inr (u, Some action, nd)"
    by (auto simp: best_choice_min_def)
  with replace show ?thesis by blast
next
  case (Some m)
  then have "best_choice_min u bs action om nd ld = Inr (u, Some action, nd) \<or>
    best_choice_min u bs action om nd ld = Inr (bs, Some action, ld) \<or>
    best_choice_min u bs action om nd ld = Inr (bs, Some m, ld)"
    by (auto simp: best_choice_min_def)
  with Some replace keep show ?thesis by blast
qed

subsection \<open>Terminal states\<close>

text \<open>
  Claim C5. On a state where \<^verbatim>\<open>is_win()\<close> holds and \<^verbatim>\<open>is_tie()\<close> does not, the search
  returns utility 1 at a min node and utility 0 at a max node, with no action and the
  depth it was called with: the win goes to the player who has just moved.
\<close>

theorem alphabeta_win:
  "is_win T state \<Longrightarrow> \<not> is_tie T state \<Longrightarrow>
   alphabeta (Suc fuel) T state a B False True node_depth = Some (Inr (Fin 1, None, node_depth)) \<and>
   alphabeta (Suc fuel) T state a B True False node_depth = Some (Inr (Fin 0, None, node_depth))"
  by simp

theorem alphabeta_win_witness:
  "is_win tree_ops win_leaf \<and> \<not> is_tie tree_ops win_leaf \<and>
   alphabeta (Suc 0) tree_ops win_leaf (Fin 0) PosInf False True 3 = Some (Inr (Fin 1, None, 3)) \<and>
   alphabeta (Suc 0) tree_ops win_leaf (Fin 0) PosInf True False 3 = Some (Inr (Fin 0, None, 3))"
  using alphabeta_win [of tree_ops win_leaf 0 "Fin 0" PosInf 3]
  by (simp add: tree_ops_def win_leaf_def)

text \<open>
  Claim C10. The tie test comes first: on every state where \<^verbatim>\<open>is_tie()\<close> answers true the
  search returns utility 0.5, no action and the depth it was called with, whatever
  \<^verbatim>\<open>is_win()\<close> answers and whatever the flags and the bounds are.
\<close>

theorem alphabeta_tie_first:
  "is_tie T state \<Longrightarrow>
   alphabeta (Suc fuel) T state a B is_max is_min node_depth
     = Some (Inr (Fin (1/2), None, node_depth))"
  by simp

theorem alphabeta_tie_first_witness:
  "is_tie tree_ops win_and_tie_leaf \<and> is_win tree_ops win_and_tie_leaf \<and>
   alphabeta (Suc 0) tree_ops win_and_tie_leaf NegInf PosInf False True 9
     = Some (Inr (Fin (1/2), None, 9))"
  using alphabeta_tie_first [of tree_ops win_and_tie_leaf 0 NegInf PosInf False True 9]
  by (simp add: tree_ops_def win_and_tie_leaf_def)

subsection \<open>One iteration of a loop\<close>

text \<open>
  What an iteration does, given what the call on the child returned and what the helper
  made of it; and the four ways in which a loop with a move left can return.
\<close>

lemma max_loop_step:
  assumes "alphabeta n T child a B False True (d + 1) = Some (Inr (u, x, nd))"
    and "best_choice_max u bs action om nd ld = Inr (bs', om', ld')"
  shows "max_loop n T ((action, child) # ms) a B d bs om ld =
     (if B \<le> max a bs' then Some (Inr (bs', om', ld'))
      else max_loop n T ms (max a bs') B d bs' om' ld')"
  using assms by simp

lemma min_loop_step:
  assumes "alphabeta n T child a B True False (d + 1) = Some (Inr (u, x, nd))"
    and "best_choice_min u bs action om nd ld = Inr (bs', om', ld')"
  shows "min_loop n T ((action, child) # ms) a B d bs om ld =
     (if min B bs' \<le> a then Some (Inr (bs', om', ld'))
      else min_loop n T ms a (min B bs') d bs' om' ld')"
  using assms by simp

lemma max_loop_raise:
  "alphabeta n T child a B False True (d + 1) = Some (Inl e) \<Longrightarrow>
     max_loop n T ((action, child) # ms) a B d bs om ld = Some (Inl e)"
  "alphabeta n T child a B False True (d + 1) = Some (Inr (u, x, nd)) \<Longrightarrow>
   best_choice_max u bs action om nd ld = Inl e \<Longrightarrow>
     max_loop n T ((action, child) # ms) a B d bs om ld = Some (Inl e)"
  by simp_all

lemma min_loop_raise:
  "alphabeta n T child a B True False (d + 1) = Some (Inl e) \<Longrightarrow>
     min_loop n T ((action, child) # ms) a B d bs om ld = Some (Inl e)"
  "alphabeta n T child a B True False (d + 1) = Some (Inr (u, x, nd)) \<Longrightarrow>
   best_choice_min u bs action om nd ld = Inl e \<Longrightarrow>
     min_loop n T ((action, child) # ms) a B d bs om ld = Some (Inl e)"
  by simp_all

lemma max_loop_Cons_cases:
  assumes "max_loop n T ((action, child) # ms) a B d bs om ld = Some r"
  obtains
    (child_raise) e where "alphabeta n T child a B False True (d + 1) = Some (Inl e)" "r = Inl e"
  | (choice_raise) u x nd e where "alphabeta n T child a B False True (d + 1) = Some (Inr (u, x, nd))"
      "best_choice_max u bs action om nd ld = Inl e" "r = Inl e"
  | (break) u x nd bs' om' ld' where "alphabeta n T child a B False True (d + 1) = Some (Inr (u, x, nd))"
      "best_choice_max u bs action om nd ld = Inr (bs', om', ld')" "B \<le> max a bs'"
      "r = Inr (bs', om', ld')"
  | (continue) u x nd bs' om' ld' where "alphabeta n T child a B False True (d + 1) = Some (Inr (u, x, nd))"
      "best_choice_max u bs action om nd ld = Inr (bs', om', ld')" "\<not> B \<le> max a bs'"
      "max_loop n T ms (max a bs') B d bs' om' ld' = Some r"
proof (cases "alphabeta n T child a B False True (d + 1)")
  case None
  with assms show ?thesis by simp
next
  case (Some y)
  show ?thesis
  proof (cases y)
    case (Inl e)
    with Some assms have "r = Inl e" by simp
    with Some Inl show ?thesis by (intro child_raise) simp_all
  next
    case (Inr t)
    obtain u x nd where t: "t = (u, x, nd)" by (cases t) auto
    have ab: "alphabeta n T child a B False True (d + 1) = Some (Inr (u, x, nd))"
      using Some Inr t by simp
    show ?thesis
    proof (cases "best_choice_max u bs action om nd ld")
      case (Inl e)
      from assms max_loop_raise(2)[OF ab Inl] have "r = Inl e" by simp
      with ab Inl show ?thesis by (intro choice_raise)
    next
      case bc: (Inr t')
      obtain bs' om' ld' where t': "t' = (bs', om', ld')" by (cases t') auto
      note st = max_loop_step[OF ab bc[unfolded t'], where ms = ms]
      show ?thesis
      proof (cases "B \<le> max a bs'")
        case True
        with assms st have "r = Inr (bs', om', ld')" by simp
        with ab bc t' True show ?thesis by (intro break) simp_all
      next
        case False
        with assms st have "max_loop n T ms (max a bs') B d bs' om' ld' = Some r" by simp
        with ab bc t' False show ?thesis by (intro continue) simp_all
      qed
    qed
  qed
qed

lemma min_loop_Cons_cases:
  assumes "min_loop n T ((action, child) # ms) a B d bs om ld = Some r"
  obtains
    (child_raise) e where "alphabeta n T child a B True False (d + 1) = Some (Inl e)" "r = Inl e"
  | (choice_raise) u x nd e where "alphabeta n T child a B True False (d + 1) = Some (Inr (u, x, nd))"
      "best_choice_min u bs action om nd ld = Inl e" "r = Inl e"
  | (break) u x nd bs' om' ld' where "alphabeta n T child a B True False (d + 1) = Some (Inr (u, x, nd))"
      "best_choice_min u bs action om nd ld = Inr (bs', om', ld')" "min B bs' \<le> a"
      "r = Inr (bs', om', ld')"
  | (continue) u x nd bs' om' ld' where "alphabeta n T child a B True False (d + 1) = Some (Inr (u, x, nd))"
      "best_choice_min u bs action om nd ld = Inr (bs', om', ld')" "\<not> min B bs' \<le> a"
      "min_loop n T ms a (min B bs') d bs' om' ld' = Some r"
proof (cases "alphabeta n T child a B True False (d + 1)")
  case None
  with assms show ?thesis by simp
next
  case (Some y)
  show ?thesis
  proof (cases y)
    case (Inl e)
    with Some assms have "r = Inl e" by simp
    with Some Inl show ?thesis by (intro child_raise) simp_all
  next
    case (Inr t)
    obtain u x nd where t: "t = (u, x, nd)" by (cases t) auto
    have ab: "alphabeta n T child a B True False (d + 1) = Some (Inr (u, x, nd))"
      using Some Inr t by simp
    show ?thesis
    proof (cases "best_choice_min u bs action om nd ld")
      case (Inl e)
      from assms min_loop_raise(2)[OF ab Inl] have "r = Inl e" by simp
      with ab Inl show ?thesis by (intro choice_raise)
    next
      case bc: (Inr t')
      obtain bs' om' ld' where t': "t' = (bs', om', ld')" by (cases t') auto
      note st = min_loop_step[OF ab bc[unfolded t'], where ms = ms]
      show ?thesis
      proof (cases "min B bs' \<le> a")
        case True
        with assms st have "r = Inr (bs', om', ld')" by simp
        with ab bc t' True show ?thesis by (intro break) simp_all
      next
        case False
        with assms st have "min_loop n T ms a (min B bs') d bs' om' ld' = Some r" by simp
        with ab bc t' False show ?thesis by (intro continue) simp_all
      qed
    qed
  qed
qed

subsection \<open>More fuel does not change a result\<close>

declare max_loop.simps(2) [simp del] min_loop.simps(2) [simp del]

lemma max_loop_fuel_mono:
  assumes IH: "\<And>s a B mx mn d r. alphabeta n T s a B mx mn d = Some r \<Longrightarrow> alphabeta m T s a B mx mn d = Some r"
  shows "max_loop n T ms a B d bs om ld = Some r \<Longrightarrow> max_loop m T ms a B d bs om ld = Some r"
proof (induction ms arbitrary: a bs om ld)
  case Nil
  then show ?case by simp
next
  case (Cons p ms)
  obtain action child where p: "p = (action, child)" by (cases p) auto
  from Cons.prems have prem: "max_loop n T ((action, child) # ms) a B d bs om ld = Some r"
    by (simp only: p)
  have "max_loop m T ((action, child) # ms) a B d bs om ld = Some r"
    using prem
  proof (cases rule: max_loop_Cons_cases)
    case (child_raise e)
    show ?thesis unfolding child_raise(2)
      by (rule max_loop_raise(1)[OF IH[OF child_raise(1)]])
  next
    case (choice_raise u x nd e)
    show ?thesis unfolding choice_raise(3)
      by (rule max_loop_raise(2)[OF IH[OF choice_raise(1)] choice_raise(2)])
  next
    case (break u x nd bs' om' ld')
    show ?thesis
      by (subst max_loop_step[OF IH[OF break(1)] break(2)]) (simp add: break(3,4))
  next
    case (continue u x nd bs' om' ld')
    show ?thesis
      by (subst max_loop_step[OF IH[OF continue(1)] continue(2)])
         (simp add: continue(3) Cons.IH[OF continue(4)])
  qed
  then show ?case by (simp only: p)
qed

lemma min_loop_fuel_mono:
  assumes IH: "\<And>s a B mx mn d r. alphabeta n T s a B mx mn d = Some r \<Longrightarrow> alphabeta m T s a B mx mn d = Some r"
  shows "min_loop n T ms a B d bs om ld = Some r \<Longrightarrow> min_loop m T ms a B d bs om ld = Some r"
proof (induction ms arbitrary: B bs om ld)
  case Nil
  then show ?case by simp
next
  case (Cons p ms)
  obtain action child where p: "p = (action, child)" by (cases p) auto
  from Cons.prems have prem: "min_loop n T ((action, child) # ms) a B d bs om ld = Some r"
    by (simp only: p)
  have "min_loop m T ((action, child) # ms) a B d bs om ld = Some r"
    using prem
  proof (cases rule: min_loop_Cons_cases)
    case (child_raise e)
    show ?thesis unfolding child_raise(2)
      by (rule min_loop_raise(1)[OF IH[OF child_raise(1)]])
  next
    case (choice_raise u x nd e)
    show ?thesis unfolding choice_raise(3)
      by (rule min_loop_raise(2)[OF IH[OF choice_raise(1)] choice_raise(2)])
  next
    case (break u x nd bs' om' ld')
    show ?thesis
      by (subst min_loop_step[OF IH[OF break(1)] break(2)]) (simp add: break(3,4))
  next
    case (continue u x nd bs' om' ld')
    show ?thesis
      by (subst min_loop_step[OF IH[OF continue(1)] continue(2)])
         (simp add: continue(3) Cons.IH[OF continue(4)])
  qed
  then show ?case by (simp only: p)
qed

lemma alphabeta_fuel_mono:
  "alphabeta n T s a B mx mn d = Some r \<Longrightarrow> n \<le> m \<Longrightarrow> alphabeta m T s a B mx mn d = Some r"
proof (induction n arbitrary: m s a B mx mn d r)
  case 0
  then show ?case by simp
next
  case (Suc n)
  from Suc.prems(2) obtain m' where m: "m = Suc m'" "n \<le> m'" by (cases m) auto
  have IH: "\<And>s a B mx mn d r. alphabeta n T s a B mx mn d = Some r \<Longrightarrow> alphabeta m' T s a B mx mn d = Some r"
    using Suc.IH m(2) by blast
  note mx = max_loop_fuel_mono[OF IH] and mn = min_loop_fuel_mono[OF IH]
  show ?case using Suc.prems(1) unfolding m(1)
    by (auto simp: mx mn split: if_splits)
qed

subsection \<open>The search raises no exception\<close>

text \<open>
  A call returns a depth that is at least the depth it was given, so a child's depth is
  strictly greater than the initial \<^verbatim>\<open>lowest_depth\<close>: while \<^verbatim>\<open>optimal_move\<close> is
  \<^verbatim>\<open>None\<close> the helpers never reach the comparison of the actions.
\<close>

lemma max_loop_no_raise:
  assumes IH: "\<And>s a B mx mn d r. alphabeta n T s a B mx mn d = Some r \<Longrightarrow>
      \<exists>u act dep. r = Inr (u, act, dep) \<and> d \<le> dep"
  shows "max_loop n T ms a B d bs om ld = Some r \<Longrightarrow> d \<le> ld \<Longrightarrow> (om = None \<longrightarrow> ld = d) \<Longrightarrow>
     \<exists>u act dep. r = Inr (u, act, dep) \<and> d \<le> dep"
proof (induction ms arbitrary: a bs om ld)
  case Nil
  then show ?case by auto
next
  case (Cons p ms)
  obtain action child where p: "p = (action, child)" by (cases p) auto
  from Cons.prems(1) have prem: "max_loop n T ((action, child) # ms) a B d bs om ld = Some r"
    by (simp only: p)
  from prem show ?case
  proof (cases rule: max_loop_Cons_cases)
    case (child_raise e)
    from IH[OF child_raise(1)] show ?thesis by simp
  next
    case (choice_raise u x nd e)
    from IH[OF choice_raise(1)] have "d + 1 \<le> nd" by simp
    with Cons.prems(2,3) have "om = None \<longrightarrow> ld < nd" by auto
    then show ?thesis using choice_raise(2)
      by (cases rule: best_choice_max_no_raise[where u = u and bs = bs and action = action]) auto
  next
    case (break u x nd bs' om' ld')
    from IH[OF break(1)] have nd: "d + 1 \<le> nd" by simp
    with Cons.prems(2,3) have "om = None \<longrightarrow> ld < nd" by auto
    then show ?thesis using break(2,4) nd Cons.prems(2)
      by (cases rule: best_choice_max_no_raise[where u = u and bs = bs and action = action]) auto
  next
    case (continue u x nd bs' om' ld')
    from IH[OF continue(1)] have nd: "d + 1 \<le> nd" by simp
    with Cons.prems(2,3) have "om = None \<longrightarrow> ld < nd" by auto
    then have "d \<le> ld' \<and> (om' = None \<longrightarrow> ld' = d)" using continue(2) nd Cons.prems(2,3)
      by (cases rule: best_choice_max_no_raise[where u = u and bs = bs and action = action]) auto
    with Cons.IH[OF continue(4)] show ?thesis by blast
  qed
qed

lemma min_loop_no_raise:
  assumes IH: "\<And>s a B mx mn d r. alphabeta n T s a B mx mn d = Some r \<Longrightarrow>
      \<exists>u act dep. r = Inr (u, act, dep) \<and> d \<le> dep"
  shows "min_loop n T ms a B d bs om ld = Some r \<Longrightarrow> d \<le> ld \<Longrightarrow> (om = None \<longrightarrow> ld = d) \<Longrightarrow>
     \<exists>u act dep. r = Inr (u, act, dep) \<and> d \<le> dep"
proof (induction ms arbitrary: B bs om ld)
  case Nil
  then show ?case by auto
next
  case (Cons p ms)
  obtain action child where p: "p = (action, child)" by (cases p) auto
  from Cons.prems(1) have prem: "min_loop n T ((action, child) # ms) a B d bs om ld = Some r"
    by (simp only: p)
  from prem show ?case
  proof (cases rule: min_loop_Cons_cases)
    case (child_raise e)
    from IH[OF child_raise(1)] show ?thesis by simp
  next
    case (choice_raise u x nd e)
    from IH[OF choice_raise(1)] have "d + 1 \<le> nd" by simp
    with Cons.prems(2,3) have "om = None \<longrightarrow> ld < nd" by auto
    then show ?thesis using choice_raise(2)
      by (cases rule: best_choice_min_no_raise[where u = u and bs = bs and action = action]) auto
  next
    case (break u x nd bs' om' ld')
    from IH[OF break(1)] have nd: "d + 1 \<le> nd" by simp
    with Cons.prems(2,3) have "om = None \<longrightarrow> ld < nd" by auto
    then show ?thesis using break(2,4) nd Cons.prems(2)
      by (cases rule: best_choice_min_no_raise[where u = u and bs = bs and action = action]) auto
  next
    case (continue u x nd bs' om' ld')
    from IH[OF continue(1)] have nd: "d + 1 \<le> nd" by simp
    with Cons.prems(2,3) have "om = None \<longrightarrow> ld < nd" by auto
    then have "d \<le> ld' \<and> (om' = None \<longrightarrow> ld' = d)" using continue(2) nd Cons.prems(2,3)
      by (cases rule: best_choice_min_no_raise[where u = u and bs = bs and action = action]) auto
    with Cons.IH[OF continue(4)] show ?thesis by blast
  qed
qed

lemma alphabeta_no_raise:
  "alphabeta n T s a B mx mn d = Some r \<Longrightarrow> \<exists>u act dep. r = Inr (u, act, dep) \<and> d \<le> dep"
proof (induction n arbitrary: s a B mx mn d r)
  case 0
  then show ?case by simp
next
  case (Suc n)
  have IH: "\<And>s a B mx mn d r. alphabeta n T s a B mx mn d = Some r \<Longrightarrow>
      \<exists>u act dep. r = Inr (u, act, dep) \<and> d \<le> dep"
    by (rule Suc.IH)
  show ?case
  proof (cases "is_tie T s \<or> is_win T s")
    case True
    with Suc.prems show ?thesis by (auto split: if_splits)
  next
    case nt: False
    consider (maxn) "mx \<and> \<not> mn" | (minn) "mn \<and> \<not> mx" | (neither) "mx = mn"
      by blast
    then show ?thesis
    proof cases
      case maxn
      with nt Suc.prems have "max_loop n T (get_transitions T s) a B d NegInf None d = Some r"
        by simp
      from max_loop_no_raise[where n = n and T = T, OF IH this] show ?thesis by simp
    next
      case minn
      with nt Suc.prems have "min_loop n T (get_transitions T s) a B d PosInf None d = Some r"
        by auto
      from min_loop_no_raise[where n = n and T = T, OF IH this] show ?thesis by simp
    next
      case neither
      with nt Suc.prems show ?thesis by auto
    qed
  qed
qed

subsection \<open>Termination\<close>

lemma max_loop_returns:
  assumes ch: "\<And>action child a B mx mn d. (action, child) \<in> set ms \<Longrightarrow>
      alphabeta n T child a B mx mn d \<noteq> None"
  shows "max_loop n T ms a B d bs om ld \<noteq> None"
  using ch
proof (induction ms arbitrary: a bs om ld)
  case Nil
  show ?case by simp
next
  case (Cons p ms)
  obtain action child where p: "p = (action, child)" by (cases p) auto
  from Cons.prems[of action child a B False True "d + 1"] p
  obtain y where y: "alphabeta n T child a B False True (d + 1) = Some y" by auto
  have ch': "alphabeta n T child' a' B' mx mn d' \<noteq> None" if "(action', child') \<in> set ms"
    for action' child' a' B' mx mn d'
  proof -
    from that have "(action', child') \<in> set (p # ms)" by simp
    then show ?thesis by (rule Cons.prems)
  qed
  have rest: "\<And>a bs om ld. max_loop n T ms a B d bs om ld \<noteq> None"
    by (rule Cons.IH) (rule ch')
  have "max_loop n T ((action, child) # ms) a B d bs om ld \<noteq> None"
  proof (cases y)
    case (Inl e)
    with max_loop_raise(1)[OF y[unfolded Inl]] show ?thesis by simp
  next
    case (Inr t)
    obtain u x nd where t: "t = (u, x, nd)" by (cases t) auto
    note ab = y[unfolded Inr t]
    show ?thesis
    proof (cases "best_choice_max u bs action om nd ld")
      case (Inl e)
      with max_loop_raise(2)[OF ab Inl] show ?thesis by simp
    next
      case bc: (Inr t')
      obtain bs' om' ld' where t': "t' = (bs', om', ld')" by (cases t') auto
      show ?thesis
        by (subst max_loop_step[OF ab bc[unfolded t']]) (use rest in auto)
    qed
  qed
  then show ?case unfolding p .
qed

lemma min_loop_returns:
  assumes ch: "\<And>action child a B mx mn d. (action, child) \<in> set ms \<Longrightarrow>
      alphabeta n T child a B mx mn d \<noteq> None"
  shows "min_loop n T ms a B d bs om ld \<noteq> None"
  using ch
proof (induction ms arbitrary: B bs om ld)
  case Nil
  show ?case by simp
next
  case (Cons p ms)
  obtain action child where p: "p = (action, child)" by (cases p) auto
  from Cons.prems[of action child a B True False "d + 1"] p
  obtain y where y: "alphabeta n T child a B True False (d + 1) = Some y" by auto
  have ch': "alphabeta n T child' a' B' mx mn d' \<noteq> None" if "(action', child') \<in> set ms"
    for action' child' a' B' mx mn d'
  proof -
    from that have "(action', child') \<in> set (p # ms)" by simp
    then show ?thesis by (rule Cons.prems)
  qed
  have rest: "\<And>B bs om ld. min_loop n T ms a B d bs om ld \<noteq> None"
    by (rule Cons.IH) (rule ch')
  have "min_loop n T ((action, child) # ms) a B d bs om ld \<noteq> None"
  proof (cases y)
    case (Inl e)
    with min_loop_raise(1)[OF y[unfolded Inl]] show ?thesis by simp
  next
    case (Inr t)
    obtain u x nd where t: "t = (u, x, nd)" by (cases t) auto
    note ab = y[unfolded Inr t]
    show ?thesis
    proof (cases "best_choice_min u bs action om nd ld")
      case (Inl e)
      with min_loop_raise(2)[OF ab Inl] show ?thesis by simp
    next
      case bc: (Inr t')
      obtain bs' om' ld' where t': "t' = (bs', om', ld')" by (cases t') auto
      show ?thesis
        by (subst min_loop_step[OF ab bc[unfolded t']]) (use rest in auto)
    qed
  qed
  then show ?case unfolding p .
qed

lemma alphabeta_returns_mono:
  "alphabeta n T s a B mx mn d \<noteq> None \<Longrightarrow> n \<le> m \<Longrightarrow> alphabeta m T s a B mx mn d \<noteq> None"
  using alphabeta_fuel_mono[of n T s a B mx mn d _ m] by auto

lemma uniform_fuel:
  assumes "\<And>action child. (action, child) \<in> set ms \<Longrightarrow>
      \<exists>n. \<forall>a B mx mn d. alphabeta n T child a B mx mn d \<noteq> None"
  shows "\<exists>n. \<forall>(action, child) \<in> set ms. \<forall>a B mx mn d. alphabeta n T child a B mx mn d \<noteq> None"
  using assms
proof (induction ms)
  case Nil
  show ?case by simp
next
  case (Cons p ms)
  obtain action child where p: "p = (action, child)" by (cases p) auto
  from Cons.prems[of action child] p
  obtain n1 where n1: "\<And>a B mx mn d. alphabeta n1 T child a B mx mn d \<noteq> None" by auto
  have ch': "\<exists>n. \<forall>a B mx mn d. alphabeta n T child' a B mx mn d \<noteq> None"
    if "(action', child') \<in> set ms" for action' child'
  proof -
    from that have "(action', child') \<in> set (p # ms)" by simp
    then show ?thesis by (rule Cons.prems)
  qed
  have "\<exists>n. \<forall>(action, child) \<in> set ms. \<forall>a B mx mn d. alphabeta n T child a B mx mn d \<noteq> None"
    by (rule Cons.IH) (rule ch')
  then obtain n2 where n2: "\<forall>(action, child) \<in> set ms. \<forall>a B mx mn d. alphabeta n2 T child a B mx mn d \<noteq> None"
    by blast
  have "alphabeta (max n1 n2) T c a B mx mn d \<noteq> None" if "(ac, c) \<in> set (p # ms)"
    for ac c a B mx mn d
  proof (cases "(ac, c) \<in> set ms")
    case True
    with n2 have "alphabeta n2 T c a B mx mn d \<noteq> None" by blast
    then show ?thesis by (rule alphabeta_returns_mono) simp
  next
    case False
    with that p have "c = child" by simp
    with n1 have "alphabeta n1 T c a B mx mn d \<noteq> None" by blast
    then show ?thesis by (rule alphabeta_returns_mono) simp
  qed
  then have "\<forall>(action, child) \<in> set (p # ms). \<forall>a B mx mn d.
      alphabeta (max n1 n2) T child a B mx mn d \<noteq> None"
    by blast
  then show ?case by blast
qed

lemma plays_end_returns:
  "plays_end T s \<Longrightarrow> \<exists>n. \<forall>a B mx mn d. alphabeta n T s a B mx mn d \<noteq> None"
proof (induction rule: plays_end.induct)
  case (terminal s)
  then have "\<forall>a B mx mn d. alphabeta (Suc 0) T s a B mx mn d \<noteq> None" by auto
  then show ?case by blast
next
  case (expand s)
  from uniform_fuel[of "get_transitions T s" T] expand.IH
  obtain n where n: "\<forall>(action, child) \<in> set (get_transitions T s).
      \<forall>a B mx mn d. alphabeta n T child a B mx mn d \<noteq> None"
    by blast
  then have ch: "\<And>action child a B mx mn d. (action, child) \<in> set (get_transitions T s) \<Longrightarrow>
      alphabeta n T child a B mx mn d \<noteq> None"
    by blast
  have "\<forall>a B mx mn d. alphabeta (Suc n) T s a B mx mn d \<noteq> None"
    using max_loop_returns[of "get_transitions T s" n T, OF ch]
          min_loop_returns[of "get_transitions T s" n T, OF ch]
    by simp
  then show ?case by blast
qed

lemma contract_plays_end: "contract T s \<Longrightarrow> plays_end T s"
  by (induction rule: contract.induct) (auto intro: plays_end.intros)

lemma plays_end_result:
  assumes "plays_end T s"
  shows "\<exists>n u act dep. \<forall>m\<ge>n. alphabeta m T s a B mx mn d = Some (Inr (u, act, dep))"
proof -
  from plays_end_returns[OF assms]
  obtain n where "\<forall>a B mx mn d. alphabeta n T s a B mx mn d \<noteq> None" by blast
  then have "alphabeta n T s a B mx mn d \<noteq> None" by blast
  then obtain r where r: "alphabeta n T s a B mx mn d = Some r" by blast
  from alphabeta_no_raise[OF r] obtain u act dep where "r = Inr (u, act, dep)" by auto
  with r alphabeta_fuel_mono[OF r] show ?thesis by blast
qed

lemma alphabeta_total:
  assumes "plays_end T s"
  shows "\<exists>fuel u act dep.
      (\<forall>k. alphabeta (fuel + k) T s a B mx mn d = Some (Inr (u, act, dep))) \<and>
      (\<forall>n. alphabeta n T s a B mx mn d = None \<or>
           alphabeta n T s a B mx mn d = Some (Inr (u, act, dep)))"
proof -
  from plays_end_result[OF assms] obtain fuel u act dep
    where r: "\<forall>m\<ge>fuel. alphabeta m T s a B mx mn d = Some (Inr (u, act, dep))"
    by blast
  have 1: "alphabeta (fuel + k) T s a B mx mn d = Some (Inr (u, act, dep))" for k
    using r by simp
  have 2: "alphabeta n T s a B mx mn d = None \<or>
      alphabeta n T s a B mx mn d = Some (Inr (u, act, dep))" for n
  proof (cases "alphabeta n T s a B mx mn d")
    case None
    then show ?thesis by simp
  next
    case (Some r')
    from alphabeta_fuel_mono[OF Some, of "fuel + n"] 1[of n] have "r' = Inr (u, act, dep)"
      by simp
    with Some show ?thesis by simp
  qed
  from 1 2 show ?thesis by blast
qed

text \<open>
  Where the transition relation of an abstraction is well-founded, the plays from every
  state end.
\<close>

lemma wf_plays_end:
  assumes "wf {(child, s). \<not> is_tie T s \<and> \<not> is_win T s \<and>
      (\<exists>action. (action, child) \<in> set (get_transitions T s))}"
  shows "plays_end T s"
  using assms
proof (induction s rule: wf_induct_rule)
  case (less s)
  show ?case
  proof (cases "is_tie T s \<or> is_win T s")
    case True
    then show ?thesis by (rule plays_end.terminal)
  next
    case False
    show ?thesis
    proof (rule plays_end.expand)
      fix action child
      assume "(action, child) \<in> set (get_transitions T s)"
      with False show "plays_end T child" by (intro less.IH) auto
    qed
  qed
qed

subsection \<open>Under the contract: utilities, depths and actions\<close>

lemma terminal_in_range:
  "terminal_in T s mx k u \<Longrightarrow> u = Fin 0 \<or> u = Fin (1/2) \<or> u = Fin 1"
  by (induction k arbitrary: s mx) (auto split: if_splits)

lemma contract_child:
  assumes "contract T s" "\<not> is_tie T s" "\<not> is_win T s"
  shows "get_transitions T s \<noteq> []"
    and "(action, child) \<in> set (get_transitions T s) \<Longrightarrow> contract T child"
  using assms by (auto elim: contract.cases)

lemma max_loop_terminal:
  assumes IH: "\<And>c a B d r. contract T c \<Longrightarrow> alphabeta n T c a B False True d = Some r \<Longrightarrow>
      \<exists>u act k. r = Inr (u, act, d + int k) \<and> terminal_in T c False k u"
    and nt: "\<not> is_tie T s" "\<not> is_win T s"
  shows "max_loop n T ms a B d bs om ld = Some r \<Longrightarrow>
     set ms \<subseteq> set (get_transitions T s) \<Longrightarrow>
     (\<And>action child. (action, child) \<in> set ms \<Longrightarrow> contract T child) \<Longrightarrow>
     (om = None \<longrightarrow> bs = NegInf) \<Longrightarrow>
     (om \<noteq> None \<longrightarrow> (\<exists>k. ld = d + int (Suc k) \<and> terminal_in T s True (Suc k) bs)) \<Longrightarrow>
     \<exists>u act dep. r = Inr (u, act, dep) \<and> (act = None \<longrightarrow> om = None \<and> ms = []) \<and>
       (act \<noteq> None \<longrightarrow> (\<exists>k. dep = d + int (Suc k) \<and> terminal_in T s True (Suc k) u))"
proof (induction ms arbitrary: a bs om ld)
  case Nil
  then show ?case by (auto simp del: terminal_in.simps)
next
  case (Cons p ms)
  obtain action child where p: "p = (action, child)" by (cases p) auto
  from Cons.prems(1) have prem: "max_loop n T ((action, child) # ms) a B d bs om ld = Some r"
    by (simp only: p)
  have mem: "(action, child) \<in> set (get_transitions T s)"
    using Cons.prems(2) p by auto
  have cc: "contract T child"
    using Cons.prems(3)[of action child] p by simp
  have sub: "set ms \<subseteq> set (get_transitions T s)"
    using Cons.prems(2) by auto
  have cs: "contract T child'" if "(action', child') \<in> set ms" for action' child'
    using Cons.prems(3)[of action' child'] that by simp
  have step: "(om' \<noteq> None) \<and> (\<exists>k. ld' = d + int (Suc k) \<and> terminal_in T s True (Suc k) bs')"
    if ab: "alphabeta n T child a B False True (d + 1) = Some (Inr (u, x, nd))"
      and bc: "best_choice_max u bs action om nd ld = Inr (bs', om', ld')"
    for u x nd bs' om' ld'
  proof -
    from IH[OF cc ab] obtain k where k: "nd = d + 1 + int k" "terminal_in T child False k u"
      by auto
    from terminal_in_range[OF k(2)] Cons.prems(4) have "om = None \<longrightarrow> bs < u"
      by auto
    then show ?thesis
    proof (cases rule: best_choice_max_incumbent[where u = u and bs = bs and action = action
          and nd = nd and ld = ld])
      case replace
      with bc have "bs' = u" "om' = Some action" "ld' = nd" by simp_all
      moreover have "terminal_in T s True (Suc k) u"
        using nt mem k(2) by auto
      ultimately show ?thesis using k(1) by auto
    next
      case (keep m)
      with bc have "bs' = bs" "om' = Some m" "ld' = ld" by simp_all
      with keep(1) Cons.prems(5) show ?thesis by auto
    qed
  qed
  have no_raise: False
    if ab: "alphabeta n T child a B False True (d + 1) = Some (Inr (u, x, nd))"
      and bc: "best_choice_max u bs action om nd ld = Inl e"
    for u x nd e
  proof -
    from IH[OF cc ab] obtain k where k: "nd = d + 1 + int k" "terminal_in T child False k u"
      by auto
    from terminal_in_range[OF k(2)] Cons.prems(4) have "om = None \<longrightarrow> bs < u"
      by auto
    then show ?thesis using bc
      by (cases rule: best_choice_max_incumbent[where u = u and bs = bs and action = action
          and nd = nd and ld = ld]) auto
  qed
  from prem show ?case
  proof (cases rule: max_loop_Cons_cases)
    case (child_raise e)
    from IH[OF cc child_raise(1)] show ?thesis by simp
  next
    case (choice_raise u x nd e)
    from no_raise[OF choice_raise(1,2)] show ?thesis ..
  next
    case (break u x nd bs' om' ld')
    from step[OF break(1,2)] break(4) show ?thesis by auto
  next
    case (continue u x nd bs' om' ld')
    from step[OF continue(1,2)] have inv: "om' \<noteq> None"
      "\<exists>k. ld' = d + int (Suc k) \<and> terminal_in T s True (Suc k) bs'" by auto
    from Cons.IH[OF continue(4) sub cs] inv show ?thesis by auto
  qed
qed

lemma min_loop_terminal:
  assumes IH: "\<And>c a B d r. contract T c \<Longrightarrow> alphabeta n T c a B True False d = Some r \<Longrightarrow>
      \<exists>u act k. r = Inr (u, act, d + int k) \<and> terminal_in T c True k u"
    and nt: "\<not> is_tie T s" "\<not> is_win T s"
  shows "min_loop n T ms a B d bs om ld = Some r \<Longrightarrow>
     set ms \<subseteq> set (get_transitions T s) \<Longrightarrow>
     (\<And>action child. (action, child) \<in> set ms \<Longrightarrow> contract T child) \<Longrightarrow>
     (om = None \<longrightarrow> bs = PosInf) \<Longrightarrow>
     (om \<noteq> None \<longrightarrow> (\<exists>k. ld = d + int (Suc k) \<and> terminal_in T s False (Suc k) bs)) \<Longrightarrow>
     \<exists>u act dep. r = Inr (u, act, dep) \<and> (act = None \<longrightarrow> om = None \<and> ms = []) \<and>
       (act \<noteq> None \<longrightarrow> (\<exists>k. dep = d + int (Suc k) \<and> terminal_in T s False (Suc k) u))"
proof (induction ms arbitrary: B bs om ld)
  case Nil
  then show ?case by (auto simp del: terminal_in.simps)
next
  case (Cons p ms)
  obtain action child where p: "p = (action, child)" by (cases p) auto
  from Cons.prems(1) have prem: "min_loop n T ((action, child) # ms) a B d bs om ld = Some r"
    by (simp only: p)
  have mem: "(action, child) \<in> set (get_transitions T s)"
    using Cons.prems(2) p by auto
  have cc: "contract T child"
    using Cons.prems(3)[of action child] p by simp
  have sub: "set ms \<subseteq> set (get_transitions T s)"
    using Cons.prems(2) by auto
  have cs: "contract T child'" if "(action', child') \<in> set ms" for action' child'
    using Cons.prems(3)[of action' child'] that by simp
  have step: "(om' \<noteq> None) \<and> (\<exists>k. ld' = d + int (Suc k) \<and> terminal_in T s False (Suc k) bs')"
    if ab: "alphabeta n T child a B True False (d + 1) = Some (Inr (u, x, nd))"
      and bc: "best_choice_min u bs action om nd ld = Inr (bs', om', ld')"
    for u x nd bs' om' ld'
  proof -
    from IH[OF cc ab] obtain k where k: "nd = d + 1 + int k" "terminal_in T child True k u"
      by auto
    from terminal_in_range[OF k(2)] Cons.prems(4) have "om = None \<longrightarrow> u < bs"
      by auto
    then show ?thesis
    proof (cases rule: best_choice_min_incumbent[where u = u and bs = bs and action = action
          and nd = nd and ld = ld])
      case replace
      with bc have "bs' = u" "om' = Some action" "ld' = nd" by simp_all
      moreover have "terminal_in T s False (Suc k) u"
        using nt mem k(2) by auto
      ultimately show ?thesis using k(1) by auto
    next
      case (keep m)
      with bc have "bs' = bs" "om' = Some m" "ld' = ld" by simp_all
      with keep(1) Cons.prems(5) show ?thesis by auto
    qed
  qed
  have no_raise: False
    if ab: "alphabeta n T child a B True False (d + 1) = Some (Inr (u, x, nd))"
      and bc: "best_choice_min u bs action om nd ld = Inl e"
    for u x nd e
  proof -
    from IH[OF cc ab] obtain k where k: "nd = d + 1 + int k" "terminal_in T child True k u"
      by auto
    from terminal_in_range[OF k(2)] Cons.prems(4) have "om = None \<longrightarrow> u < bs"
      by auto
    then show ?thesis using bc
      by (cases rule: best_choice_min_incumbent[where u = u and bs = bs and action = action
          and nd = nd and ld = ld]) auto
  qed
  from prem show ?case
  proof (cases rule: min_loop_Cons_cases)
    case (child_raise e)
    from IH[OF cc child_raise(1)] show ?thesis by simp
  next
    case (choice_raise u x nd e)
    from no_raise[OF choice_raise(1,2)] show ?thesis ..
  next
    case (break u x nd bs' om' ld')
    from step[OF break(1,2)] break(4) show ?thesis by auto
  next
    case (continue u x nd bs' om' ld')
    from step[OF continue(1,2)] have inv: "om' \<noteq> None"
      "\<exists>k. ld' = d + int (Suc k) \<and> terminal_in T s False (Suc k) bs'" by auto
    from Cons.IH[OF continue(4) sub cs] inv show ?thesis by auto
  qed
qed

lemma alphabeta_terminal:
  "contract T s \<Longrightarrow> alphabeta n T s a B mx (\<not> mx) d = Some r \<Longrightarrow>
     \<exists>u act k. r = Inr (u, act, d + int k) \<and> terminal_in T s mx k u \<and>
       (act = None \<longleftrightarrow> is_tie T s \<or> is_win T s)"
proof (induction n arbitrary: s a B mx d r)
  case 0
  then show ?case by simp
next
  case (Suc n)
  show ?case
  proof (cases "is_tie T s \<or> is_win T s")
    case True
    with Suc.prems(2) have "r = Inr (Fin (1/2), None, d + int 0) \<and> terminal_in T s mx 0 (Fin (1/2)) \<or>
       r = Inr (if mx then Fin 0 else Fin 1, None, d + int 0) \<and>
         terminal_in T s mx 0 (if mx then Fin 0 else Fin 1)"
      by (auto split: if_splits)
    with True show ?thesis by blast
  next
    case False
    then have nt: "\<not> is_tie T s" "\<not> is_win T s" by auto
    note cc = contract_child[OF Suc.prems(1) nt]
    have sub: "set (get_transitions T s) \<subseteq> set (get_transitions T s)" by simp
    have cs: "\<And>action child. (action, child) \<in> set (get_transitions T s) \<Longrightarrow> contract T child"
      by (rule cc(2))
    show ?thesis
    proof (cases mx)
      case True
      with nt Suc.prems(2)
      have lp: "max_loop n T (get_transitions T s) a B d NegInf None d = Some r" by simp
      have "\<exists>u act dep. r = Inr (u, act, dep) \<and>
          (act = None \<longrightarrow> (None :: 'b option) = None \<and> get_transitions T s = []) \<and>
          (act \<noteq> None \<longrightarrow> (\<exists>k. dep = d + int (Suc k) \<and> terminal_in T s True (Suc k) u))"
      proof (rule max_loop_terminal[where n = n and T = T and s = s and a = a and B = B
            and bs = NegInf and om = None and ld = d])
        fix c a B d r
        assume "contract T c" "alphabeta n T c a B False True d = Some r"
        with Suc.IH[of c a B "False" d r]
        show "\<exists>u act k. r = Inr (u, act, d + int k) \<and> terminal_in T c False k u"
          by auto
      next
        fix action child
        assume "(action, child) \<in> set (get_transitions T s)"
        then show "contract T child" by (rule cc(2))
      qed (use nt lp in simp_all)
      with cc(1)
      obtain u act k where "r = Inr (u, act, d + int (Suc k))" "act \<noteq> None"
         "terminal_in T s True (Suc k) u"
        by (auto simp del: terminal_in.simps)
      with True nt
      have "r = Inr (u, act, d + int (Suc k)) \<and> terminal_in T s mx (Suc k) u \<and>
          (act = None \<longleftrightarrow> is_tie T s \<or> is_win T s)"
        by (simp del: terminal_in.simps)
      then show ?thesis by (intro exI)
    next
      case False
      with nt Suc.prems(2)
      have lp: "min_loop n T (get_transitions T s) a B d PosInf None d = Some r" by simp
      have "\<exists>u act dep. r = Inr (u, act, dep) \<and>
          (act = None \<longrightarrow> (None :: 'b option) = None \<and> get_transitions T s = []) \<and>
          (act \<noteq> None \<longrightarrow> (\<exists>k. dep = d + int (Suc k) \<and> terminal_in T s False (Suc k) u))"
      proof (rule min_loop_terminal[where n = n and T = T and s = s and a = a and B = B
            and bs = PosInf and om = None and ld = d])
        fix c a B d r
        assume "contract T c" "alphabeta n T c a B True False d = Some r"
        with Suc.IH[of c a B "True" d r]
        show "\<exists>u act k. r = Inr (u, act, d + int k) \<and> terminal_in T c True k u"
          by auto
      next
        fix action child
        assume "(action, child) \<in> set (get_transitions T s)"
        then show "contract T child" by (rule cc(2))
      qed (use nt lp in simp_all)
      with cc(1)
      obtain u act k where "r = Inr (u, act, d + int (Suc k))" "act \<noteq> None"
         "terminal_in T s False (Suc k) u"
        by (auto simp del: terminal_in.simps)
      with False nt
      have "r = Inr (u, act, d + int (Suc k)) \<and> terminal_in T s mx (Suc k) u \<and>
          (act = None \<longleftrightarrow> is_tie T s \<or> is_win T s)"
        by (simp del: terminal_in.simps)
      then show ?thesis by (intro exI)
    qed
  qed
qed

lemma alphabeta_utility_range:
  assumes "contract T s" "alphabeta n T s a B mx mn d = Some r"
  shows "\<exists>u act dep. r = Inr (u, act, dep) \<and> (u = Fin 0 \<or> u = Fin (1/2) \<or> u = Fin 1)"
proof (cases "mn = (\<not> mx)")
  case True
  with alphabeta_terminal[OF assms(1), of n a B mx d r] assms(2)
  obtain u act k where "r = Inr (u, act, d + int k)" "terminal_in T s mx k u" by auto
  with terminal_in_range[of T s mx k u] show ?thesis by blast
next
  case False
  then have eq: "mn = mx" by auto
  from assms(2) obtain n' where "n = Suc n'" by (cases n) auto
  with assms(2) eq show ?thesis by (auto split: if_splits)
qed

text \<open>
  Claim C7. Under the contract (every non-terminal state met has a transition, every play
  ends) every call of the search, whatever its bounds, flags and depth, returns a triple
  whose utility is one of 0, 0.5 and 1; these are the utilities the helpers compare, with
  \<open>=\<close> on \<open>score\<close> for \<^verbatim>\<open>==\<close>.
\<close>

theorem alphabeta_utility_values: "contract T state \<Longrightarrow>
   \<exists>fuel u act dep.
      (\<forall>k. alphabeta (fuel + k) T state a B is_max is_min node_depth = Some (Inr (u, act, dep))) \<and>
      (\<forall>n. alphabeta n T state a B is_max is_min node_depth = None \<or>
           alphabeta n T state a B is_max is_min node_depth = Some (Inr (u, act, dep))) \<and>
      u \<in> {Fin 0, Fin (1/2), Fin 1}"
proof -
  assume c: "contract T state"
  from alphabeta_total[OF contract_plays_end[OF c], of a B is_max is_min node_depth]
  obtain fuel u act dep where
    1: "\<forall>k. alphabeta (fuel + k) T state a B is_max is_min node_depth = Some (Inr (u, act, dep))" and
    2: "\<forall>n. alphabeta n T state a B is_max is_min node_depth = None \<or>
           alphabeta n T state a B is_max is_min node_depth = Some (Inr (u, act, dep))"
    by blast
  from 1 have "alphabeta (fuel + 0) T state a B is_max is_min node_depth = Some (Inr (u, act, dep))"
    by blast
  from alphabeta_utility_range[OF c this] have "u \<in> {Fin 0, Fin (1/2), Fin 1}" by simp
  with 1 2 show ?thesis by blast
qed

theorem alphabeta_utility_values_witness:
  "contract tree_ops pruned_game \<and>
   alphabeta 4 tree_ops pruned_game NegInf PosInf True False 0
     = Some (Inr (Fin (1/2), Some (0,1,1), 2)) \<and>
   Fin (1/2) \<in> {Fin 0, Fin (1/2), Fin 1}"
  using alphabeta_utility_values[OF contract_pruned_game, of NegInf PosInf True False 0]
    contract_pruned_game pruned_game_search
  by simp

text \<open>
  Claim C4 says that the returned depth is the number of plies from the node under
  evaluation to the terminal state whose utility is reported, and not a count from the root.
  The code counts from the root: a terminal state returns the \<^verbatim>\<open>node_depth\<close> it was
  called with. The search of \<open>last_move\<close> calls \<^verbatim>\<open>alphabeta\<close> on the tie \<open>tie_leaf\<close> with
  depth 1, and that call returns depth 1 for a terminal state that is 0 plies away.
\<close>

lemma last_move_call:
  "rtranclp (calls tree_ops) (Call last_move NegInf PosInf True False 0)
      (Call tie_leaf NegInf PosInf False True 1)"
proof -
  have 1: "calls tree_ops (Call last_move NegInf PosInf True False 0)
      (MaxIter [((0,2,3), tie_leaf)] NegInf PosInf 0 NegInf None 0)"
    using calls.enter_max[of tree_ops last_move True False NegInf PosInf 0]
    by (simp add: tree_ops_def last_move_def)
  have 2: "calls tree_ops (MaxIter [((0,2,3), tie_leaf)] NegInf PosInf 0 NegInf None 0)
      (Call tie_leaf NegInf PosInf False True 1)"
    using calls.max_call[of tree_ops "(0,2,3)" tie_leaf "[]" NegInf PosInf 0 NegInf None 0]
    by simp
  from 1 2 show ?thesis by (meson rtranclp.rtrancl_into_rtrancl rtranclp.rtrancl_refl)
qed

theorem alphabeta_depth_not_relative_counterexample:
  "rtranclp (calls tree_ops) (Call last_move NegInf PosInf True False 0)
      (Call tie_leaf NegInf PosInf False True 1) \<and>
   alphabeta 1 tree_ops tie_leaf NegInf PosInf False True 1 = Some (Inr (Fin (1/2), None, 1)) \<and>
   terminal_in tree_ops tie_leaf False 0 (Fin (1/2)) \<and>
   \<not> terminal_in tree_ops tie_leaf False 1 (Fin (1/2))"
  using last_move_call by (simp add: tree_ops_def tie_leaf_def)

text \<open>
  Claim C4, amended. Under the contract, a call with opposite flags returns the depth
  \<^verbatim>\<open>node_depth\<close> + k, where k is the number of plies from the node under evaluation to a
  terminal state that has the reported utility: the depth counts from the node where the
  search started with depth 0, and is the number of plies from the node itself exactly when
  \<^verbatim>\<open>node_depth\<close> is 0.
\<close>

theorem alphabeta_depth_counts_from_root: "contract T state \<Longrightarrow>
   \<exists>fuel u act k.
      (\<forall>j. alphabeta (fuel + j) T state a B is_max (\<not> is_max) node_depth
             = Some (Inr (u, act, node_depth + int k))) \<and>
      (\<forall>n. alphabeta n T state a B is_max (\<not> is_max) node_depth = None \<or>
           alphabeta n T state a B is_max (\<not> is_max) node_depth
             = Some (Inr (u, act, node_depth + int k))) \<and>
      terminal_in T state is_max k u"
proof -
  assume c: "contract T state"
  from alphabeta_total[OF contract_plays_end[OF c], of a B is_max "\<not> is_max" node_depth]
  obtain fuel u act dep where
    1: "\<forall>k. alphabeta (fuel + k) T state a B is_max (\<not> is_max) node_depth = Some (Inr (u, act, dep))" and
    2: "\<forall>n. alphabeta n T state a B is_max (\<not> is_max) node_depth = None \<or>
           alphabeta n T state a B is_max (\<not> is_max) node_depth = Some (Inr (u, act, dep))"
    by blast
  from 1 have "alphabeta (fuel + 0) T state a B is_max (\<not> is_max) node_depth = Some (Inr (u, act, dep))"
    by blast
  from alphabeta_terminal[OF c this] obtain k where "dep = node_depth + int k"
    "terminal_in T state is_max k u" by auto
  with 1 2 show ?thesis by blast
qed

theorem alphabeta_depth_counts_from_root_witness:
  "contract tree_ops slow_tie \<and>
   alphabeta 3 tree_ops slow_tie NegInf PosInf False True 1
     = Some (Inr (Fin (1/2), Some (0,1,2), 1 + int 2)) \<and>
   terminal_in tree_ops slow_tie False 2 (Fin (1/2))"
proof -
  from alphabeta_depth_counts_from_root[OF contract_slow_tie, of NegInf PosInf False 1]
  obtain fuel u act k where
    1: "\<forall>n. alphabeta n tree_ops slow_tie NegInf PosInf False True 1 = None \<or>
         alphabeta n tree_ops slow_tie NegInf PosInf False True 1 = Some (Inr (u, act, 1 + int k))"
    and 2: "terminal_in tree_ops slow_tie False k u"
    by auto
  from spec[OF 1, of 3] slow_tie_search have "u = Fin (1/2)" "k = 2" by auto
  with 2 contract_slow_tie slow_tie_search show ?thesis by simp
qed

text \<open>
  Claim C6 says that \<^verbatim>\<open>choose\<close> returns an action on every non-terminal state that
  enumerates at least one transition. \<open>dead_end_game\<close> is such a state, and \<^verbatim>\<open>choose\<close>
  returns \<^verbatim>\<open>None\<close> on it: two plies down lies a non-terminal state without transitions,
  whose \<open>-inf\<close> comes back to the root and never beats the initial \<open>-inf\<close>.
\<close>

theorem choose_move_dead_end_counterexample:
  "\<not> is_win tree_ops dead_end_game \<and> \<not> is_tie tree_ops dead_end_game \<and>
   get_transitions tree_ops dead_end_game \<noteq> [] \<and>
   choose_move 3 tree_ops dead_end_game = Some (Inr None)"
  by (simp add: choose_move_def tree_ops_def dead_end_game_def dead_end_def best_choice_max_def
      best_choice_min_def eval_nat_numeral max_loop.simps(2) min_loop.simps(2))

text \<open>
  Claim C6, amended. On a state that satisfies the contract (every non-terminal state
  reachable from it enumerates at least one transition, and every play ends) \<^verbatim>\<open>choose\<close>
  returns, and it returns no action if and only if the state is terminal: \<^verbatim>\<open>None\<close> where
  \<^verbatim>\<open>is_win()\<close> or \<^verbatim>\<open>is_tie()\<close> holds, an action otherwise. (A terminal state satisfies the
  contract whatever its transitions are.)
\<close>

theorem choose_move_none_iff_terminal: "contract T state \<Longrightarrow>
   \<exists>fuel act.
      (\<forall>k. choose_move (fuel + k) T state = Some (Inr act)) \<and>
      (\<forall>n. choose_move n T state = None \<or> choose_move n T state = Some (Inr act)) \<and>
      (act = None \<longleftrightarrow> is_win T state \<or> is_tie T state)"
proof -
  assume c: "contract T state"
  from alphabeta_total[OF contract_plays_end[OF c], of NegInf PosInf True False 0]
  obtain fuel u act dep where
    1: "\<forall>k. alphabeta (fuel + k) T state NegInf PosInf True False 0 = Some (Inr (u, act, dep))" and
    2: "\<forall>n. alphabeta n T state NegInf PosInf True False 0 = None \<or>
           alphabeta n T state NegInf PosInf True False 0 = Some (Inr (u, act, dep))"
    by blast
  from spec[OF 1, of 0]
  have "alphabeta (fuel + 0) T state NegInf PosInf True (\<not> True) 0 = Some (Inr (u, act, dep))"
    by simp
  from alphabeta_terminal[OF c this] have 3: "act = None \<longleftrightarrow> is_win T state \<or> is_tie T state"
    by auto
  have "\<forall>k. choose_move (fuel + k) T state = Some (Inr act)"
    using 1 by (simp add: choose_move_def)
  moreover have "\<forall>n. choose_move n T state = None \<or> choose_move n T state = Some (Inr act)"
  proof
    fix n
    from 2 have "alphabeta n T state NegInf PosInf True False 0 = None \<or>
           alphabeta n T state NegInf PosInf True False 0 = Some (Inr (u, act, dep))" by blast
    then show "choose_move n T state = None \<or> choose_move n T state = Some (Inr act)"
      by (auto simp: choose_move_def)
  qed
  ultimately show ?thesis using 3 by blast
qed

theorem choose_move_none_iff_terminal_witness:
  "contract tree_ops pruned_game \<and>
   \<not> (is_win tree_ops pruned_game \<or> is_tie tree_ops pruned_game) \<and>
   choose_move 4 tree_ops pruned_game = Some (Inr (Some (0,1,1))) \<and>
   contract tree_ops tie_leaf \<and>
   (is_win tree_ops tie_leaf \<or> is_tie tree_ops tie_leaf) \<and>
   choose_move 1 tree_ops tie_leaf = Some (Inr None)"
  using choose_move_none_iff_terminal[OF contract_pruned_game]
    choose_move_none_iff_terminal[OF contract_tie_leaf]
    contract_pruned_game contract_tie_leaf pruned_game_search
  by (simp add: choose_move_def) (simp add: tree_ops_def pruned_game_def tie_leaf_def)

subsection \<open>The two role flags\<close>



lemma pruned_game_second_call:
  "rtranclp (calls tree_ops) (Call pruned_game NegInf PosInf True False 0)
      (Call tie_or_loss (Fin (1/2)) PosInf False True 1)"
proof -
  have 1: "calls tree_ops (Call pruned_game NegInf PosInf True False 0)
      (MaxIter [((0,0,1), slow_tie), ((0,1,1), tie_or_loss)] NegInf PosInf 0 NegInf None 0)"
    using calls.enter_max[of tree_ops pruned_game True False NegInf PosInf 0]
    by (simp add: tree_ops_def pruned_game_def)
  have 2: "calls tree_ops
      (MaxIter [((0,0,1), slow_tie), ((0,1,1), tie_or_loss)] NegInf PosInf 0 NegInf None 0)
      (MaxIter [((0,1,1), tie_or_loss)] (Fin (1/2)) PosInf 0 (Fin (1/2)) (Some (0,0,1)) 3)"
    using calls.max_next[of 3 tree_ops slow_tie NegInf PosInf 0 "Fin (1/2)" "Some (0,1,2)" 3
        NegInf "(0,0,1)" None 0 "Fin (1/2)" "Some (0,0,1)" 3 "[((0,1,1), tie_or_loss)]"]
      slow_tie_search
    by (simp add: best_choice_max_def)
  have 3: "calls tree_ops
      (MaxIter [((0,1,1), tie_or_loss)] (Fin (1/2)) PosInf 0 (Fin (1/2)) (Some (0,0,1)) 3)
      (Call tie_or_loss (Fin (1/2)) PosInf False True 1)"
    using calls.max_call[of tree_ops "(0,1,1)" tie_or_loss "[]" "Fin (1/2)" PosInf 0 "Fin (1/2)"
        "Some (0,0,1)" 3]
    by simp
  from 1 2 3 show ?thesis by (meson rtranclp.rtrancl_into_rtrancl rtranclp.rtrancl_refl)
qed


subsection \<open>Pruning against exhaustive minimax\<close>

text \<open>
  The utility is safe: the helpers keep the greatest (least) utility met so far whatever the
  depths and actions are, a loop breaks only on a child whose utility is outside the window,
  and so the pruned search and the exhaustive one return the same utility when both start
  with the full window.
\<close>

lemma best_choice_max_utility:
  "best_choice_max u bs action om nd ld = Inr (bs', om', ld') \<Longrightarrow> bs' = max bs u"
  by (auto simp: best_choice_max_def max_def split: if_splits option.splits)

lemma best_choice_min_utility:
  "best_choice_min u bs action om nd ld = Inr (bs', om', ld') \<Longrightarrow> bs' = min bs u"
  by (auto simp: best_choice_min_def min_def split: if_splits option.splits)

lemma max_all_Cons_cases:
  assumes "max_all n T ((action, child) # ms) d bs om ld = Some (Inr r)"
  obtains u x nd bs' om' ld' where
    "minimax n T child False True (d + 1) = Some (Inr (u, x, nd))"
    "best_choice_max u bs action om nd ld = Inr (bs', om', ld')"
    "max_all n T ms d bs' om' ld' = Some (Inr r)"
  using assms by (auto split: option.splits sum.splits prod.splits)

lemma min_all_Cons_cases:
  assumes "min_all n T ((action, child) # ms) d bs om ld = Some (Inr r)"
  obtains u x nd bs' om' ld' where
    "minimax n T child True False (d + 1) = Some (Inr (u, x, nd))"
    "best_choice_min u bs action om nd ld = Inr (bs', om', ld')"
    "min_all n T ms d bs' om' ld' = Some (Inr r)"
  using assms by (auto split: option.splits sum.splits prod.splits)

lemma max_all_ge:
  "max_all n T ms d bs om ld = Some (Inr (w, x, y)) \<Longrightarrow> bs \<le> w"
proof (induction ms arbitrary: bs om ld)
  case Nil
  then show ?case by simp
next
  case (Cons p ms)
  obtain action child where p: "p = (action, child)" by (cases p) auto
  from Cons.prems[unfolded p] show ?case
  proof (cases rule: max_all_Cons_cases)
    case (1 u x nd bs' om' ld')
    from best_choice_max_utility[OF 1(2)] Cons.IH[OF 1(3)] show ?thesis by simp
  qed
qed

lemma min_all_le:
  "min_all n T ms d bs om ld = Some (Inr (w, x, y)) \<Longrightarrow> w \<le> bs"
proof (induction ms arbitrary: bs om ld)
  case Nil
  then show ?case by simp
next
  case (Cons p ms)
  obtain action child where p: "p = (action, child)" by (cases p) auto
  from Cons.prems[unfolded p] show ?case
  proof (cases rule: min_all_Cons_cases)
    case (1 u x nd bs' om' ld')
    from best_choice_min_utility[OF 1(2)] Cons.IH[OF 1(3)] show ?thesis by simp
  qed
qed

lemma max_loop_bounds:
  assumes IH: "\<And>c a B d v x y w x' y'. a < B \<Longrightarrow>
      alphabeta n T c a B False True d = Some (Inr (v, x, y)) \<Longrightarrow>
      minimax n T c False True d = Some (Inr (w, x', y')) \<Longrightarrow> fail_soft a B v w"
  shows "max_loop n T ms a B d bs om ld = Some (Inr (v, x, y)) \<Longrightarrow>
     max_all n T ms d bs' om' ld' = Some (Inr (w, x', y')) \<Longrightarrow>
     a < B \<Longrightarrow> a = max a0 bs \<Longrightarrow> (bs \<le> a0 \<longrightarrow> bs' \<le> bs) \<Longrightarrow> (a0 < bs \<longrightarrow> bs' = bs) \<Longrightarrow>
     fail_soft a0 B v w"
proof (induction ms arbitrary: a bs om ld bs' om' ld')
  case Nil
  then show ?case by (auto simp: fail_soft_def)
next
  case (Cons p ms)
  obtain action child where p: "p = (action, child)" by (cases p) auto
  from Cons.prems(2)[unfolded p] obtain uw xw nw bs1' om1' ld1' where
    mm: "minimax n T child False True (d + 1) = Some (Inr (uw, xw, nw))" and
    bw: "best_choice_max uw bs' action om' nw ld' = Inr (bs1', om1', ld1')" and
    rw: "max_all n T ms d bs1' om1' ld1' = Some (Inr (w, x', y'))"
    by (rule max_all_Cons_cases)
  note bs1' = best_choice_max_utility[OF bw]
  from max_all_ge[OF rw] have ge: "bs1' \<le> w" .
  from Cons.prems(1)[unfolded p] show ?case
  proof (cases rule: max_loop_Cons_cases)
    case (child_raise e)
    then show ?thesis by simp
  next
    case (choice_raise u x nd e)
    then show ?thesis by simp
  next
    case (break u xu nd bs1 om1 ld1)
    note bs1 = best_choice_max_utility[OF break(2)]
    from IH[OF Cons.prems(3) break(1) mm] have cb: "fail_soft a B u uw" .
    from break(4) have v: "v = bs1" by simp
    have "bs < B" using Cons.prems(3,4) by auto
    with break(3) Cons.prems(3) bs1 have "B \<le> u" by (auto simp: max_def split: if_splits)
    with cb have "u \<le> uw" by (simp add: fail_soft_def)
    with bs1' ge have "u \<le> w" by (auto simp: max_def split: if_splits)
    moreover have "v = u" using v bs1 \<open>bs < B\<close> \<open>B \<le> u\<close> by (auto simp: max_def)
    moreover have "a0 < B" using Cons.prems(3,4) by auto
    ultimately show ?thesis using \<open>B \<le> u\<close> by (auto simp: fail_soft_def)
  next
    case (continue u xu nd bs1 om1 ld1)
    note bs1 = best_choice_max_utility[OF continue(2)]
    from IH[OF Cons.prems(3) continue(1) mm] have cb: "fail_soft a B u uw" .
    have lt: "max a bs1 < B" using continue(3) by (simp add: not_le)
    have a1: "max a bs1 = max a0 bs1" using Cons.prems(4) bs1 by (auto simp: max_def)
    have uB: "u < B" using lt bs1 by (auto simp: max_def split: if_splits)
    have i1: "bs1 \<le> a0 \<longrightarrow> bs1' \<le> bs1"
      using cb uB bs1 bs1' Cons.prems(4,5,6)
      by (auto simp: fail_soft_def max_def split: if_splits)
    have i2: "a0 < bs1 \<longrightarrow> bs1' = bs1"
      using cb uB bs1 bs1' Cons.prems(4,5,6)
      by (auto simp: fail_soft_def max_def split: if_splits)
    from Cons.IH[OF continue(4) rw lt a1 i1 i2] show ?thesis .
  qed
qed

lemma min_loop_bounds:
  assumes IH: "\<And>c a B d v x y w x' y'. a < B \<Longrightarrow>
      alphabeta n T c a B True False d = Some (Inr (v, x, y)) \<Longrightarrow>
      minimax n T c True False d = Some (Inr (w, x', y')) \<Longrightarrow> fail_soft a B v w"
  shows "min_loop n T ms a B d bs om ld = Some (Inr (v, x, y)) \<Longrightarrow>
     min_all n T ms d bs' om' ld' = Some (Inr (w, x', y')) \<Longrightarrow>
     a < B \<Longrightarrow> B = min B0 bs \<Longrightarrow> (B0 \<le> bs \<longrightarrow> bs \<le> bs') \<Longrightarrow> (bs < B0 \<longrightarrow> bs' = bs) \<Longrightarrow>
     fail_soft a B0 v w"
proof (induction ms arbitrary: B bs om ld bs' om' ld')
  case Nil
  then show ?case by (auto simp: fail_soft_def)
next
  case (Cons p ms)
  obtain action child where p: "p = (action, child)" by (cases p) auto
  from Cons.prems(2)[unfolded p] obtain uw xw nw bs1' om1' ld1' where
    mm: "minimax n T child True False (d + 1) = Some (Inr (uw, xw, nw))" and
    bw: "best_choice_min uw bs' action om' nw ld' = Inr (bs1', om1', ld1')" and
    rw: "min_all n T ms d bs1' om1' ld1' = Some (Inr (w, x', y'))"
    by (rule min_all_Cons_cases)
  note bs1' = best_choice_min_utility[OF bw]
  from min_all_le[OF rw] have le: "w \<le> bs1'" .
  from Cons.prems(1)[unfolded p] show ?case
  proof (cases rule: min_loop_Cons_cases)
    case (child_raise e)
    then show ?thesis by simp
  next
    case (choice_raise u x nd e)
    then show ?thesis by simp
  next
    case (break u xu nd bs1 om1 ld1)
    note bs1 = best_choice_min_utility[OF break(2)]
    from IH[OF Cons.prems(3) break(1) mm] have cb: "fail_soft a B u uw" .
    from break(4) have v: "v = bs1" by simp
    have "a < bs" using Cons.prems(3,4) by auto
    with break(3) Cons.prems(3) bs1 have "u \<le> a" by (auto simp: min_def split: if_splits)
    with cb have "uw \<le> u" by (simp add: fail_soft_def)
    with bs1' le have "w \<le> u" by (auto simp: min_def split: if_splits)
    moreover have "v = u" using v bs1 \<open>a < bs\<close> \<open>u \<le> a\<close> by (auto simp: min_def)
    moreover have "a < B0" using Cons.prems(3,4) by auto
    ultimately show ?thesis using \<open>u \<le> a\<close> by (auto simp: fail_soft_def)
  next
    case (continue u xu nd bs1 om1 ld1)
    note bs1 = best_choice_min_utility[OF continue(2)]
    from IH[OF Cons.prems(3) continue(1) mm] have cb: "fail_soft a B u uw" .
    have lt: "a < min B bs1" using continue(3) by (simp add: not_le)
    have B1: "min B bs1 = min B0 bs1" using Cons.prems(4) bs1 by (auto simp: min_def)
    have ua: "a < u" using lt bs1 by (auto simp: min_def split: if_splits)
    have i1: "B0 \<le> bs1 \<longrightarrow> bs1 \<le> bs1'"
      using cb ua bs1 bs1' Cons.prems(4,5,6)
      by (auto simp: fail_soft_def min_def split: if_splits)
    have i2: "bs1 < B0 \<longrightarrow> bs1' = bs1"
      using cb ua bs1 bs1' Cons.prems(4,5,6)
      by (auto simp: fail_soft_def min_def split: if_splits)
    from Cons.IH[OF continue(4) rw lt B1 i1 i2] show ?thesis .
  qed
qed

lemma alphabeta_bounds:
  "a < B \<Longrightarrow> alphabeta n T s a B mx mn d = Some (Inr (v, x, y)) \<Longrightarrow>
   minimax n T s mx mn d = Some (Inr (w, x', y')) \<Longrightarrow> fail_soft a B v w"
proof (induction n arbitrary: s a B mx mn d v x y w x' y')
  case 0
  then show ?case by simp
next
  case (Suc n)
  show ?case
  proof (cases "is_tie T s \<or> is_win T s")
    case True
    with Suc.prems(2,3) have "v = w" by (auto split: if_splits)
    then show ?thesis by (auto simp: fail_soft_def)
  next
    case nt: False
    consider (maxn) "mx \<and> \<not> mn" | (minn) "mn \<and> \<not> mx" | (neither) "mx = mn"
      by blast
    then show ?thesis
    proof cases
      case maxn
      with nt Suc.prems(2,3) have
        1: "max_loop n T (get_transitions T s) a B d NegInf None d = Some (Inr (v, x, y))" and
        2: "max_all n T (get_transitions T s) d NegInf None d = Some (Inr (w, x', y'))"
        by auto
      have 3: "a = max a NegInf" by (cases a) (auto simp: max_def)
      show ?thesis
        by (rule max_loop_bounds[where n = n and T = T, OF Suc.IH 1 2 Suc.prems(1) 3]) auto
    next
      case minn
      with nt Suc.prems(2,3) have
        1: "min_loop n T (get_transitions T s) a B d PosInf None d = Some (Inr (v, x, y))" and
        2: "min_all n T (get_transitions T s) d PosInf None d = Some (Inr (w, x', y'))"
        by auto
      have 3: "B = min B PosInf" by (cases B) (auto simp: min_def)
      show ?thesis
        by (rule min_loop_bounds[where n = n and T = T, OF Suc.IH 1 2 Suc.prems(1) 3]) auto
    next
      case neither
      with nt Suc.prems(2,3) have "v = w" by auto
      then show ?thesis by (auto simp: fail_soft_def)
    qed
  qed
qed

lemma pruning_keeps_the_utility:
  assumes "alphabeta n T s NegInf PosInf mx mn d = Some (Inr (v, x, y))"
    and "minimax n T s mx mn d = Some (Inr (w, x', y'))"
  shows "v = w"
proof -
  have "NegInf < PosInf" by simp
  from alphabeta_bounds[OF this assms] show ?thesis
    by (cases v; cases w) (auto simp: fail_soft_def)
qed

text \<open>
  Claim C1 says that the pruned search returns the utility and the action of the exhaustive
  minimax with the same tie-break rules. On \<open>pruned_game\<close>, which satisfies the contract,
  it does not: the first move is worth a tie three plies down; the second child is a min
  node whose first reply ties at depth 2, and with \<^verbatim>\<open>B <= a\<close> (0.5 <= 0.5) its loop breaks
  before the winning reply of the opponent is seen. The root then prefers the second move
  for its smaller depth. The exhaustive search values the second child at 0 and keeps the
  first move.
\<close>

theorem pruning_changes_the_action:
  "contract tree_ops pruned_game \<and>
   alphabeta 4 tree_ops pruned_game NegInf PosInf True False 0
     = Some (Inr (Fin (1/2), Some (0,1,1), 2)) \<and>
   choose_move 4 tree_ops pruned_game = Some (Inr (Some (0,1,1))) \<and>
   minimax 4 tree_ops pruned_game True False 0 = Some (Inr (Fin (1/2), Some (0,0,1), 3)) \<and>
   minimax 3 tree_ops tie_or_loss False True 1 = Some (Inr (Fin 0, Some (0,2,2), 2)) \<and>
   alphabeta 3 tree_ops tie_or_loss NegInf PosInf False True 1
     = Some (Inr (Fin 0, Some (0,2,2), 2)) \<and>
   alphabeta 3 tree_ops tie_or_loss (Fin (1/2)) PosInf False True 1
     = Some (Inr (Fin (1/2), Some (0,0,2), 2))"
  using contract_pruned_game
  by (simp add: choose_move_def tree_ops_def pruned_game_def slow_tie_def last_move_def
      tie_or_loss_def tie_leaf_def win_leaf_def best_choice_max_def best_choice_min_def
      eval_nat_numeral max_loop.simps(2) min_loop.simps(2))

subsection \<open>The exhaustive search returns\<close>

text \<open>
  \<open>minimax\<close> visits every move of every state it meets. Where every play ends it returns,
  from one amount of fuel on for all flags and depths, and with a depth that is at least
  the depth of the node.
\<close>

lemma max_all_total:
  assumes ch: "\<And>action child. (action, child) \<in> set ms \<Longrightarrow>
      \<exists>u x nd. d + 1 \<le> nd \<and> (\<forall>m\<ge>N. minimax m T child False True (d + 1) = Some (Inr (u, x, nd)))"
  shows "d \<le> ld \<Longrightarrow> (om = None \<longrightarrow> ld = d) \<Longrightarrow>
     \<exists>u x dep. d \<le> dep \<and> (\<forall>m\<ge>N. max_all m T ms d bs om ld = Some (Inr (u, x, dep)))"
  using ch
proof (induction ms arbitrary: bs om ld)
  case Nil
  then have "d \<le> ld \<and> (\<forall>m\<ge>N. max_all m T [] d bs om ld = Some (Inr (bs, om, ld)))"
    by simp
  then show ?case by blast
next
  case (Cons p ms)
  obtain action child where p: "p = (action, child)" by (cases p) auto
  from Cons.prems(3)[of action child] p obtain u x nd where
    nd: "d + 1 \<le> nd" and
    c: "\<forall>m\<ge>N. minimax m T child False True (d + 1) = Some (Inr (u, x, nd))"
    by auto
  have rest: "\<exists>u x nd. d + 1 \<le> nd \<and>
      (\<forall>m\<ge>N. minimax m T child' False True (d + 1) = Some (Inr (u, x, nd)))"
    if "(action', child') \<in> set ms" for action' child'
    using Cons.prems(3)[of action' child'] that by simp
  from nd Cons.prems(1,2) have "om = None \<longrightarrow> ld < nd" by auto
  then obtain bs' om' ld' where
    bc: "best_choice_max u bs action om nd ld = Inr (bs', om', ld')" and
    inv: "d \<le> ld'" "om' = None \<longrightarrow> ld' = d"
    using nd Cons.prems(1,2)
    by (cases rule: best_choice_max_no_raise[where u = u and bs = bs and action = action]) auto
  have "\<exists>v y dep. d \<le> dep \<and> (\<forall>m\<ge>N. max_all m T ms d bs' om' ld' = Some (Inr (v, y, dep)))"
    by (rule Cons.IH[OF inv]) (rule rest)
  then obtain v y dep where
    dep: "d \<le> dep" and r: "\<forall>m\<ge>N. max_all m T ms d bs' om' ld' = Some (Inr (v, y, dep))"
    by blast
  have "\<forall>m\<ge>N. max_all m T ((action, child) # ms) d bs om ld = Some (Inr (v, y, dep))"
    using c bc r by simp
  with dep show ?case unfolding p by blast
qed

lemma min_all_total:
  assumes ch: "\<And>action child. (action, child) \<in> set ms \<Longrightarrow>
      \<exists>u x nd. d + 1 \<le> nd \<and> (\<forall>m\<ge>N. minimax m T child True False (d + 1) = Some (Inr (u, x, nd)))"
  shows "d \<le> ld \<Longrightarrow> (om = None \<longrightarrow> ld = d) \<Longrightarrow>
     \<exists>u x dep. d \<le> dep \<and> (\<forall>m\<ge>N. min_all m T ms d bs om ld = Some (Inr (u, x, dep)))"
  using ch
proof (induction ms arbitrary: bs om ld)
  case Nil
  then have "d \<le> ld \<and> (\<forall>m\<ge>N. min_all m T [] d bs om ld = Some (Inr (bs, om, ld)))"
    by simp
  then show ?case by blast
next
  case (Cons p ms)
  obtain action child where p: "p = (action, child)" by (cases p) auto
  from Cons.prems(3)[of action child] p obtain u x nd where
    nd: "d + 1 \<le> nd" and
    c: "\<forall>m\<ge>N. minimax m T child True False (d + 1) = Some (Inr (u, x, nd))"
    by auto
  have rest: "\<exists>u x nd. d + 1 \<le> nd \<and>
      (\<forall>m\<ge>N. minimax m T child' True False (d + 1) = Some (Inr (u, x, nd)))"
    if "(action', child') \<in> set ms" for action' child'
    using Cons.prems(3)[of action' child'] that by simp
  from nd Cons.prems(1,2) have "om = None \<longrightarrow> ld < nd" by auto
  then obtain bs' om' ld' where
    bc: "best_choice_min u bs action om nd ld = Inr (bs', om', ld')" and
    inv: "d \<le> ld'" "om' = None \<longrightarrow> ld' = d"
    using nd Cons.prems(1,2)
    by (cases rule: best_choice_min_no_raise[where u = u and bs = bs and action = action]) auto
  have "\<exists>v y dep. d \<le> dep \<and> (\<forall>m\<ge>N. min_all m T ms d bs' om' ld' = Some (Inr (v, y, dep)))"
    by (rule Cons.IH[OF inv]) (rule rest)
  then obtain v y dep where
    dep: "d \<le> dep" and r: "\<forall>m\<ge>N. min_all m T ms d bs' om' ld' = Some (Inr (v, y, dep))"
    by blast
  have "\<forall>m\<ge>N. min_all m T ((action, child) # ms) d bs om ld = Some (Inr (v, y, dep))"
    using c bc r by simp
  with dep show ?case unfolding p by blast
qed

lemma uniform_minimax_fuel:
  assumes "\<And>action child. (action, child) \<in> set ms \<Longrightarrow>
      \<exists>N. \<forall>mx mn d. \<exists>u x dep. d \<le> dep \<and>
        (\<forall>m\<ge>N. minimax m T child mx mn d = Some (Inr (u, x, dep)))"
  shows "\<exists>N. \<forall>(action, child) \<in> set ms. \<forall>mx mn d. \<exists>u x dep. d \<le> dep \<and>
        (\<forall>m\<ge>N. minimax m T child mx mn d = Some (Inr (u, x, dep)))"
  using assms
proof (induction ms)
  case Nil
  show ?case by simp
next
  case (Cons p ms)
  obtain action child where p: "p = (action, child)" by (cases p) auto
  from Cons.prems[of action child] p obtain n1 where
    n1: "\<forall>mx mn d. \<exists>u x dep. d \<le> dep \<and>
        (\<forall>m\<ge>n1. minimax m T child mx mn d = Some (Inr (u, x, dep)))"
    by auto
  have ch': "\<exists>N. \<forall>mx mn d. \<exists>u x dep. d \<le> dep \<and>
        (\<forall>m\<ge>N. minimax m T child' mx mn d = Some (Inr (u, x, dep)))"
    if "(action', child') \<in> set ms" for action' child'
    using Cons.prems[of action' child'] that by simp
  have "\<exists>N. \<forall>(action, child) \<in> set ms. \<forall>mx mn d. \<exists>u x dep. d \<le> dep \<and>
        (\<forall>m\<ge>N. minimax m T child mx mn d = Some (Inr (u, x, dep)))"
    by (rule Cons.IH) (rule ch')
  then obtain n2 where
    n2: "\<forall>(action, child) \<in> set ms. \<forall>mx mn d. \<exists>u x dep. d \<le> dep \<and>
        (\<forall>m\<ge>n2. minimax m T child mx mn d = Some (Inr (u, x, dep)))"
    by blast
  have "\<exists>u x dep. d \<le> dep \<and>
        (\<forall>m\<ge>max n1 n2. minimax m T c mx mn d = Some (Inr (u, x, dep)))"
    if "(ac, c) \<in> set (p # ms)" for ac c mx mn d
  proof (cases "(ac, c) \<in> set ms")
    case True
    with n2 obtain u x dep where "d \<le> dep"
      "\<forall>m\<ge>n2. minimax m T c mx mn d = Some (Inr (u, x, dep))" by blast
    then have "d \<le> dep \<and> (\<forall>m\<ge>max n1 n2. minimax m T c mx mn d = Some (Inr (u, x, dep)))"
      by simp
    then show ?thesis by blast
  next
    case False
    with that p have "c = child" by simp
    with n1 obtain u x dep where "d \<le> dep"
      "\<forall>m\<ge>n1. minimax m T c mx mn d = Some (Inr (u, x, dep))" by blast
    then have "d \<le> dep \<and> (\<forall>m\<ge>max n1 n2. minimax m T c mx mn d = Some (Inr (u, x, dep)))"
      by simp
    then show ?thesis by blast
  qed
  then have "\<forall>(action, child) \<in> set (p # ms). \<forall>mx mn d. \<exists>u x dep. d \<le> dep \<and>
        (\<forall>m\<ge>max n1 n2. minimax m T child mx mn d = Some (Inr (u, x, dep)))"
    by blast
  then show ?case by blast
qed

lemma minimax_total:
  "plays_end T s \<Longrightarrow> \<exists>N. \<forall>mx mn d. \<exists>u x dep. d \<le> dep \<and>
        (\<forall>m\<ge>N. minimax m T s mx mn d = Some (Inr (u, x, dep)))"
proof (induction rule: plays_end.induct)
  case (terminal s)
  have "\<exists>u x dep. d \<le> dep \<and> (\<forall>m\<ge>Suc 0. minimax m T s mx mn d = Some (Inr (u, x, dep)))"
    for mx mn d
  proof -
    have "minimax m T s mx mn d = minimax (Suc 0) T s mx mn d" if "m \<ge> Suc 0" for m
    proof -
      from that obtain m' where "m = Suc m'" by (cases m) auto
      with terminal show ?thesis by auto
    qed
    moreover from terminal have "minimax (Suc 0) T s mx mn d =
        Some (Inr (if is_tie T s then Fin (1/2) else if \<not> mx \<and> mn then Fin 1 else Fin 0, None, d))"
      by auto
    ultimately have "d \<le> d \<and> (\<forall>m\<ge>Suc 0. minimax m T s mx mn d =
        Some (Inr (if is_tie T s then Fin (1/2) else if \<not> mx \<and> mn then Fin 1 else Fin 0, None, d)))"
      by simp
    then show ?thesis by blast
  qed
  then show ?case by blast
next
  case (expand s)
  from uniform_minimax_fuel[of "get_transitions T s" T] expand.IH
  obtain N where N: "\<forall>(action, child) \<in> set (get_transitions T s). \<forall>mx mn d.
      \<exists>u x dep. d \<le> dep \<and> (\<forall>m\<ge>N. minimax m T child mx mn d = Some (Inr (u, x, dep)))"
    by blast
  have "\<exists>u x dep. d \<le> dep \<and> (\<forall>m\<ge>Suc N. minimax m T s mx mn d = Some (Inr (u, x, dep)))"
    for mx mn d
  proof -
    have mxl: "\<exists>u x dep. d \<le> dep \<and>
        (\<forall>m\<ge>N. max_all m T (get_transitions T s) d NegInf None d = Some (Inr (u, x, dep)))"
    proof (rule max_all_total)
      fix action child
      assume "(action, child) \<in> set (get_transitions T s)"
      with N show "\<exists>u x nd. d + 1 \<le> nd \<and>
          (\<forall>m\<ge>N. minimax m T child False True (d + 1) = Some (Inr (u, x, nd)))"
        by blast
    qed simp_all
    have mnl: "\<exists>u x dep. d \<le> dep \<and>
        (\<forall>m\<ge>N. min_all m T (get_transitions T s) d PosInf None d = Some (Inr (u, x, dep)))"
    proof (rule min_all_total)
      fix action child
      assume "(action, child) \<in> set (get_transitions T s)"
      with N show "\<exists>u x nd. d + 1 \<le> nd \<and>
          (\<forall>m\<ge>N. minimax m T child True False (d + 1) = Some (Inr (u, x, nd)))"
        by blast
    qed simp_all
    have unfold: "minimax m T s mx mn d = minimax (Suc (m - 1)) T s mx mn d" if "m \<ge> Suc N" for m
      using that by simp
    consider (leaf) "is_tie T s \<or> is_win T s" | (maxn) "\<not> (is_tie T s \<or> is_win T s)" "mx \<and> \<not> mn"
      | (minn) "\<not> (is_tie T s \<or> is_win T s)" "mn \<and> \<not> mx"
      | (neither) "\<not> (is_tie T s \<or> is_win T s)" "mx = mn"
      by blast
    then show ?thesis
    proof cases
      case leaf
      have "minimax m T s mx mn d =
          Some (Inr (if is_tie T s then Fin (1/2) else if \<not> mx \<and> mn then Fin 1 else Fin 0, None, d))"
        if "m \<ge> Suc N" for m
      proof -
        from that obtain m' where "m = Suc m'" by (cases m) auto
        with leaf show ?thesis by auto
      qed
      then have "d \<le> d \<and> (\<forall>m\<ge>Suc N. minimax m T s mx mn d =
          Some (Inr (if is_tie T s then Fin (1/2) else if \<not> mx \<and> mn then Fin 1 else Fin 0, None, d)))"
        by simp
      then show ?thesis by blast
    next
      case maxn
      from mxl obtain u x dep where dep: "d \<le> dep" and
        r: "\<forall>m\<ge>N. max_all m T (get_transitions T s) d NegInf None d = Some (Inr (u, x, dep))"
        by blast
      have "minimax m T s mx mn d = Some (Inr (u, x, dep))" if "m \<ge> Suc N" for m
      proof -
        from that have "m - 1 \<ge> N" by simp
        with r have "max_all (m - 1) T (get_transitions T s) d NegInf None d = Some (Inr (u, x, dep))"
          by blast
        with maxn unfold[OF that] show ?thesis by simp
      qed
      with dep show ?thesis by blast
    next
      case minn
      from mnl obtain u x dep where dep: "d \<le> dep" and
        r: "\<forall>m\<ge>N. min_all m T (get_transitions T s) d PosInf None d = Some (Inr (u, x, dep))"
        by blast
      have "minimax m T s mx mn d = Some (Inr (u, x, dep))" if "m \<ge> Suc N" for m
      proof -
        from that have "m - 1 \<ge> N" by simp
        with r have "min_all (m - 1) T (get_transitions T s) d PosInf None d = Some (Inr (u, x, dep))"
          by blast
        with minn unfold[OF that] show ?thesis by auto
      qed
      with dep show ?thesis by blast
    next
      case neither
      have "minimax m T s mx mn d = Some (Inr (Fin 0, None, d))" if "m \<ge> Suc N" for m
      proof -
        from that obtain m' where "m = Suc m'" by (cases m) auto
        with neither show ?thesis by auto
      qed
      then have "d \<le> d \<and> (\<forall>m\<ge>Suc N. minimax m T s mx mn d = Some (Inr (Fin 0, None, d)))"
        by simp
      then show ?thesis by blast
    qed
  qed
  then show ?case by blast
qed

text \<open>
  Where every play ends both searches return, and the utility of the pruned one is related
  to the utility of the exhaustive one as its window allows.
\<close>

lemma exhaustive_agreement:
  assumes p: "plays_end T s"
  shows "\<exists>fuel v act dep w act' dep'.
      (\<forall>k. alphabeta (fuel + k) T s a B mx mn d = Some (Inr (v, act, dep))) \<and>
      (\<forall>n. alphabeta n T s a B mx mn d = None \<or>
           alphabeta n T s a B mx mn d = Some (Inr (v, act, dep))) \<and>
      (\<forall>k. minimax (fuel + k) T s mx mn d = Some (Inr (w, act', dep'))) \<and>
      (a < B \<longrightarrow> fail_soft a B v w)"
proof -
  from alphabeta_total[OF p, of a B mx mn d] obtain f1 v act dep where
    1: "\<forall>k. alphabeta (f1 + k) T s a B mx mn d = Some (Inr (v, act, dep))" and
    2: "\<forall>n. alphabeta n T s a B mx mn d = None \<or>
           alphabeta n T s a B mx mn d = Some (Inr (v, act, dep))"
    by blast
  from minimax_total[OF p] obtain N where
    "\<forall>mx mn d. \<exists>u x dep. d \<le> dep \<and> (\<forall>m\<ge>N. minimax m T s mx mn d = Some (Inr (u, x, dep)))"
    by blast
  then obtain w act' dep' where
    3: "\<forall>m\<ge>N. minimax m T s mx mn d = Some (Inr (w, act', dep'))"
    by blast
  have a: "alphabeta (f1 + N + k) T s a B mx mn d = Some (Inr (v, act, dep))" for k
    using spec[OF 1, of "N + k"] by (simp add: add.assoc)
  have m: "minimax (f1 + N + k) T s mx mn d = Some (Inr (w, act', dep'))" for k
    using 3 by simp
  have "fail_soft a B v w" if "a < B"
    using alphabeta_bounds[OF that a[of 0] m[of 0]] .
  with a m 2 show ?thesis by blast
qed

subsection \<open>Every loop goes on until it breaks\<close>

text \<open>
  \<open>frame_ok\<close> is kept by every step of the computation. At a loop with a move left, the
  call on the child returns, the helper raises nothing, and the loop takes its next
  iteration unless the test \<^verbatim>\<open>B <= a\<close> breaks it.
\<close>

lemma plays_end_child:
  assumes "plays_end T s" "\<not> is_tie T s" "\<not> is_win T s" "(action, child) \<in> set (get_transitions T s)"
  shows "plays_end T child"
  using assms by (auto elim: plays_end.cases)

lemma calls_frame_ok:
  assumes "calls T f g" "frame_ok T f"
  shows "frame_ok T g"
  using assms
proof (cases rule: calls.cases)
  case (enter_max state is_max is_min a B node_depth)
  with assms(2) show ?thesis by (auto intro: plays_end_child)
next
  case (enter_min state is_max is_min a B node_depth)
  with assms(2) show ?thesis by (auto intro: plays_end_child)
next
  case (max_call action child moves a B node_depth best_score optimal_move lowest_depth)
  with assms(2) show ?thesis by auto
next
  case (max_next fuel child a B node_depth utility_score x new_depth best_score action
      optimal_move lowest_depth best_score' optimal_move' lowest_depth' moves)
  from alphabeta_no_raise[OF max_next(3)] have nd: "node_depth + 1 \<le> new_depth" by simp
  from assms(2) max_next(1) have inv: "node_depth \<le> lowest_depth"
      "optimal_move = None \<longrightarrow> lowest_depth = node_depth" by auto
  with nd have "optimal_move = None \<longrightarrow> lowest_depth < new_depth" by auto
  then have "node_depth \<le> lowest_depth' \<and> (optimal_move' = None \<longrightarrow> lowest_depth' = node_depth)"
    using max_next(4) nd inv
    by (cases rule: best_choice_max_no_raise[where u = utility_score and bs = best_score
          and action = action]) auto
  with assms(2) max_next(1,2) show ?thesis by auto
next
  case (min_call action child moves a B node_depth best_score optimal_move lowest_depth)
  with assms(2) show ?thesis by auto
next
  case (min_next fuel child a B node_depth utility_score x new_depth best_score action
      optimal_move lowest_depth best_score' optimal_move' lowest_depth' moves)
  from alphabeta_no_raise[OF min_next(3)] have nd: "node_depth + 1 \<le> new_depth" by simp
  from assms(2) min_next(1) have inv: "node_depth \<le> lowest_depth"
      "optimal_move = None \<longrightarrow> lowest_depth = node_depth" by auto
  with nd have "optimal_move = None \<longrightarrow> lowest_depth < new_depth" by auto
  then have "node_depth \<le> lowest_depth' \<and> (optimal_move' = None \<longrightarrow> lowest_depth' = node_depth)"
    using min_next(4) nd inv
    by (cases rule: best_choice_min_no_raise[where u = utility_score and bs = best_score
          and action = action]) auto
  with assms(2) min_next(1,2) show ?thesis by auto
qed

lemma reachable_frame_ok:
  assumes "rtranclp (calls T) f g" "frame_ok T f"
  shows "frame_ok T g"
  using assms by (induction rule: rtranclp_induct) (auto intro: calls_frame_ok)

lemma max_iter_progress:
  assumes "frame_ok T (MaxIter ((action, child) # moves) a B d bs om ld)"
  shows "\<exists>fuel u x nd bs' om' ld'.
      (\<forall>k. alphabeta (fuel + k) T child a B False True (d + 1) = Some (Inr (u, x, nd))) \<and>
      best_choice_max u bs action om nd ld = Inr (bs', om', ld') \<and>
      (\<forall>k. max_loop (fuel + k) T ((action, child) # moves) a B d bs om ld =
           (if B \<le> max a bs' then Some (Inr (bs', om', ld'))
            else max_loop (fuel + k) T moves (max a bs') B d bs' om' ld')) \<and>
      (B \<le> max a bs' \<or>
       calls T (MaxIter ((action, child) # moves) a B d bs om ld)
               (MaxIter moves (max a bs') B d bs' om' ld'))"
proof -
  from assms have p: "plays_end T child" and inv: "d \<le> ld" "om = None \<longrightarrow> ld = d" by auto
  from alphabeta_total[OF p, of a B False True "d + 1"] obtain fuel u x nd where
    ab: "\<forall>k. alphabeta (fuel + k) T child a B False True (d + 1) = Some (Inr (u, x, nd))"
    by blast
  from alphabeta_no_raise[OF spec[OF ab, of 0]] have "d + 1 \<le> nd" by simp
  with inv have "om = None \<longrightarrow> ld < nd" by auto
  then obtain bs' om' ld' where bc: "best_choice_max u bs action om nd ld = Inr (bs', om', ld')"
    by (cases rule: best_choice_max_no_raise[where u = u and bs = bs and action = action]) auto
  have step: "\<forall>k. max_loop (fuel + k) T ((action, child) # moves) a B d bs om ld =
           (if B \<le> max a bs' then Some (Inr (bs', om', ld'))
            else max_loop (fuel + k) T moves (max a bs') B d bs' om' ld')"
  proof
    fix k
    show "max_loop (fuel + k) T ((action, child) # moves) a B d bs om ld =
           (if B \<le> max a bs' then Some (Inr (bs', om', ld'))
            else max_loop (fuel + k) T moves (max a bs') B d bs' om' ld')"
      by (rule max_loop_step[OF spec[OF ab, of k] bc])
  qed
  have "B \<le> max a bs' \<or>
       calls T (MaxIter ((action, child) # moves) a B d bs om ld)
               (MaxIter moves (max a bs') B d bs' om' ld')"
    using calls.max_next[OF spec[OF ab, of 0] bc] by blast
  with ab bc step show ?thesis by blast
qed

lemma min_iter_progress:
  assumes "frame_ok T (MinIter ((action, child) # moves) a B d bs om ld)"
  shows "\<exists>fuel u x nd bs' om' ld'.
      (\<forall>k. alphabeta (fuel + k) T child a B True False (d + 1) = Some (Inr (u, x, nd))) \<and>
      best_choice_min u bs action om nd ld = Inr (bs', om', ld') \<and>
      (\<forall>k. min_loop (fuel + k) T ((action, child) # moves) a B d bs om ld =
           (if min B bs' \<le> a then Some (Inr (bs', om', ld'))
            else min_loop (fuel + k) T moves a (min B bs') d bs' om' ld')) \<and>
      (min B bs' \<le> a \<or>
       calls T (MinIter ((action, child) # moves) a B d bs om ld)
               (MinIter moves a (min B bs') d bs' om' ld'))"
proof -
  from assms have p: "plays_end T child" and inv: "d \<le> ld" "om = None \<longrightarrow> ld = d" by auto
  from alphabeta_total[OF p, of a B True False "d + 1"] obtain fuel u x nd where
    ab: "\<forall>k. alphabeta (fuel + k) T child a B True False (d + 1) = Some (Inr (u, x, nd))"
    by blast
  from alphabeta_no_raise[OF spec[OF ab, of 0]] have "d + 1 \<le> nd" by simp
  with inv have "om = None \<longrightarrow> ld < nd" by auto
  then obtain bs' om' ld' where bc: "best_choice_min u bs action om nd ld = Inr (bs', om', ld')"
    by (cases rule: best_choice_min_no_raise[where u = u and bs = bs and action = action]) auto
  have step: "\<forall>k. min_loop (fuel + k) T ((action, child) # moves) a B d bs om ld =
           (if min B bs' \<le> a then Some (Inr (bs', om', ld'))
            else min_loop (fuel + k) T moves a (min B bs') d bs' om' ld')"
  proof
    fix k
    show "min_loop (fuel + k) T ((action, child) # moves) a B d bs om ld =
           (if min B bs' \<le> a then Some (Inr (bs', om', ld'))
            else min_loop (fuel + k) T moves a (min B bs') d bs' om' ld')"
      by (rule min_loop_step[OF spec[OF ab, of k] bc])
  qed
  have "min B bs' \<le> a \<or>
       calls T (MinIter ((action, child) # moves) a B d bs om ld)
               (MinIter moves a (min B bs') d bs' om' ld')"
    using calls.min_next[OF spec[OF ab, of 0] bc] by blast
  with ab bc step show ?thesis by blast
qed

text \<open>
  A search nests at most one call more than the longest play has plies.
\<close>

lemma plays_within_returns:
  "plays_within T s h \<Longrightarrow> alphabeta (Suc h) T s a B mx mn d \<noteq> None"
proof (induction h arbitrary: s a B mx mn d)
  case 0
  then show ?case by auto
next
  case (Suc h)
  show ?case
  proof (cases "is_tie T s \<or> is_win T s")
    case True
    then show ?thesis by auto
  next
    case False
    with Suc.prems have "\<forall>(action, child) \<in> set (get_transitions T s). plays_within T child h"
      by simp
    then have ch: "\<And>action child a B mx mn d. (action, child) \<in> set (get_transitions T s) \<Longrightarrow>
        alphabeta (Suc h) T child a B mx mn d \<noteq> None"
      using Suc.IH by blast
    show ?thesis
      using max_loop_returns[of "get_transitions T s" "Suc h" T, OF ch]
            min_loop_returns[of "get_transitions T s" "Suc h" T, OF ch]
      by (simp del: alphabeta.simps(2) add: alphabeta.simps(2)[of "Suc h"])
  qed
qed

lemma plays_within_result:
  assumes "plays_within T s h"
  shows "\<exists>v act dep. alphabeta (Suc h) T s a B mx mn d = Some (Inr (v, act, dep))"
proof -
  from plays_within_returns[OF assms, of a B mx mn d]
  obtain r where r: "alphabeta (Suc h) T s a B mx mn d = Some r" by blast
  from alphabeta_no_raise[OF r] r show ?thesis by blast
qed

lemma plays_within_plays_end: "plays_within T s h \<Longrightarrow> plays_end T s"
proof (induction h arbitrary: s)
  case 0
  then show ?case by (auto intro: plays_end.terminal)
next
  case (Suc h)
  show ?case
  proof (cases "is_tie T s \<or> is_win T s")
    case True
    then show ?thesis by (rule plays_end.terminal)
  next
    case False
    with Suc.prems have "\<forall>(action, child) \<in> set (get_transitions T s). plays_within T child h"
      by simp
    with Suc.IH have "\<And>action child. (action, child) \<in> set (get_transitions T s)
        \<Longrightarrow> plays_end T child"
      by blast
    then show ?thesis by (rule plays_end.expand)
  qed
qed

text \<open>
  The search of \<open>pruned_game\<close>: the loop of the root, its second iteration, and the loop of
  the min node after the second move.
\<close>

lemma pruned_game_first_loop:
  "rtranclp (calls tree_ops) (Call pruned_game NegInf PosInf True False 0)
      (MaxIter [((0,0,1), slow_tie), ((0,1,1), tie_or_loss)] NegInf PosInf 0 NegInf None 0)"
  using calls.enter_max[of tree_ops pruned_game True False NegInf PosInf 0]
  by (simp add: tree_ops_def pruned_game_def)

lemma pruned_game_loop_goes_on:
  "calls tree_ops
      (MaxIter [((0,0,1), slow_tie), ((0,1,1), tie_or_loss)] NegInf PosInf 0 NegInf None 0)
      (MaxIter [((0,1,1), tie_or_loss)] (Fin (1/2)) PosInf 0 (Fin (1/2)) (Some (0,0,1)) 3)"
  using calls.max_next[of 3 tree_ops slow_tie NegInf PosInf 0 "Fin (1/2)" "Some (0,1,2)" 3
      NegInf "(0,0,1)" None 0 "Fin (1/2)" "Some (0,0,1)" 3 "[((0,1,1), tie_or_loss)]"]
    slow_tie_search
  by (simp add: best_choice_max_def)

lemma pruned_game_min_loop:
  "rtranclp (calls tree_ops) (Call pruned_game NegInf PosInf True False 0)
      (MinIter [((0,0,2), tie_leaf), ((0,2,2), win_leaf)] (Fin (1/2)) PosInf 1 PosInf None 1)"
proof -
  have "calls tree_ops (Call tie_or_loss (Fin (1/2)) PosInf False True 1)
      (MinIter [((0,0,2), tie_leaf), ((0,2,2), win_leaf)] (Fin (1/2)) PosInf 1 PosInf None 1)"
    using calls.enter_min[of tree_ops tie_or_loss False True "Fin (1/2)" PosInf 1]
    by (simp add: tree_ops_def tie_or_loss_def)
  with pruned_game_second_call show ?thesis by (rule rtranclp.rtrancl_into_rtrancl)
qed

lemma tie_or_loss_search:
  "alphabeta 3 tree_ops tie_or_loss (Fin (1/2)) PosInf False True 1
     = Some (Inr (Fin (1/2), Some (0,0,2), 2))"
  "minimax 3 tree_ops tie_or_loss False True 1 = Some (Inr (Fin 0, Some (0,2,2), 2))"
  by (simp_all add: tree_ops_def tie_or_loss_def tie_leaf_def win_leaf_def best_choice_max_def
      best_choice_min_def eval_nat_numeral max_loop.simps(2) min_loop.simps(2))

lemma pruned_game_minimax:
  "minimax 4 tree_ops pruned_game True False 0 = Some (Inr (Fin (1/2), Some (0,0,1), 3))"
  by (simp add: tree_ops_def pruned_game_def slow_tie_def last_move_def tie_or_loss_def
      tie_leaf_def win_leaf_def best_choice_max_def best_choice_min_def eval_nat_numeral)

lemma plays_end_tie_or_loss: "plays_end tree_ops tie_or_loss"
  by (rule contract_plays_end)
     (simp add: contract_tree_ops tie_or_loss_def tie_leaf_def win_leaf_def)

lemma pruned_game_bounded: "plays_within tree_ops pruned_game 3"
  by (simp add: tree_ops_def pruned_game_def slow_tie_def last_move_def tie_or_loss_def
      tie_leaf_def win_leaf_def eval_nat_numeral)

text \<open>
  Claim C8. On every state from which every sequence of moves ends after finitely many
  plies, the search that \<^verbatim>\<open>choose\<close> invokes returns, and nothing cuts it short but the
  break on \<^verbatim>\<open>B <= a\<close>. In five parts:

  \<^enum> Every call of \<^verbatim>\<open>alphabeta\<close> returns: from some amount of fuel on it returns one and the
    same triple and raises nothing, and no smaller amount of fuel gives another result. The
    exhaustive search, which visits every move of every state, returns as well, and the
    utility of the call is the exhaustive one as far as the window of the call allows
    (\<open>fail_soft\<close>).

  \<^enum> \<^verbatim>\<open>choose\<close> returns in the same way, and the utility its search finds is the utility
    of the exhaustive search.

  \<^enum> At every max loop that the search started by \<^verbatim>\<open>choose\<close> reaches with a move left to
    visit: the call on the child of that move returns, the helper raises nothing, the loop
    returns what its next iteration returns unless \<^verbatim>\<open>B <= a\<close> holds, where it returns the
    helper's triple, and unless \<^verbatim>\<open>B <= a\<close> holds the computation goes on to the loop over
    all the remaining moves.

  \<^enum> The same at every min loop.

  \<^enum> When no play from the state has more than \<open>h\<close> plies, \<open>h + 1\<close> nested calls are enough
    for the search to return: the recursion is as deep as the longest play (on a board, the
    number of empty cells). Python raises \<^verbatim>\<open>RecursionError\<close> where that is more than the
    interpreter's recursion limit; the limit itself is not a part of the player and is not
    modelled.
\<close>

theorem alphabeta_terminates:
  "plays_end T state \<Longrightarrow>
   (\<exists>fuel v act dep w act' dep'.
      (\<forall>k. alphabeta (fuel + k) T state a B is_max is_min node_depth = Some (Inr (v, act, dep))) \<and>
      (\<forall>n. alphabeta n T state a B is_max is_min node_depth = None \<or>
           alphabeta n T state a B is_max is_min node_depth = Some (Inr (v, act, dep))) \<and>
      (\<forall>k. minimax (fuel + k) T state is_max is_min node_depth = Some (Inr (w, act', dep'))) \<and>
      (a < B \<longrightarrow> fail_soft a B v w)) \<and>
   (\<exists>fuel v act dep w act' dep'.
      (\<forall>k. alphabeta (fuel + k) T state NegInf PosInf True False 0 = Some (Inr (v, act, dep))) \<and>
      (\<forall>k. choose_move (fuel + k) T state = Some (Inr act)) \<and>
      (\<forall>n. choose_move n T state = None \<or> choose_move n T state = Some (Inr act)) \<and>
      (\<forall>k. minimax (fuel + k) T state True False 0 = Some (Inr (w, act', dep'))) \<and>
      v = w) \<and>
   (rtranclp (calls T) (Call state NegInf PosInf True False 0)
       (MaxIter ((action, child) # moves) a' B' d bs om ld) \<longrightarrow>
    (\<exists>fuel u x nd bs' om' ld'.
       (\<forall>k. alphabeta (fuel + k) T child a' B' False True (d + 1) = Some (Inr (u, x, nd))) \<and>
       best_choice_max u bs action om nd ld = Inr (bs', om', ld') \<and>
       (\<forall>k. max_loop (fuel + k) T ((action, child) # moves) a' B' d bs om ld =
            (if B' \<le> max a' bs' then Some (Inr (bs', om', ld'))
             else max_loop (fuel + k) T moves (max a' bs') B' d bs' om' ld')) \<and>
       (B' \<le> max a' bs' \<or>
        calls T (MaxIter ((action, child) # moves) a' B' d bs om ld)
                (MaxIter moves (max a' bs') B' d bs' om' ld')))) \<and>
   (rtranclp (calls T) (Call state NegInf PosInf True False 0)
       (MinIter ((action, child) # moves) a' B' d bs om ld) \<longrightarrow>
    (\<exists>fuel u x nd bs' om' ld'.
       (\<forall>k. alphabeta (fuel + k) T child a' B' True False (d + 1) = Some (Inr (u, x, nd))) \<and>
       best_choice_min u bs action om nd ld = Inr (bs', om', ld') \<and>
       (\<forall>k. min_loop (fuel + k) T ((action, child) # moves) a' B' d bs om ld =
            (if min B' bs' \<le> a' then Some (Inr (bs', om', ld'))
             else min_loop (fuel + k) T moves a' (min B' bs') d bs' om' ld')) \<and>
       (min B' bs' \<le> a' \<or>
        calls T (MinIter ((action, child) # moves) a' B' d bs om ld)
                (MinIter moves a' (min B' bs') d bs' om' ld')))) \<and>
   (plays_within T state h \<longrightarrow>
    (\<exists>v act dep. alphabeta (Suc h) T state a B is_max is_min node_depth
       = Some (Inr (v, act, dep))))"
proof -
  assume p: "plays_end T state"
  note 1 = exhaustive_agreement[OF p, of a B is_max is_min node_depth]
  have 2: "\<exists>fuel v act dep w act' dep'.
      (\<forall>k. alphabeta (fuel + k) T state NegInf PosInf True False 0 = Some (Inr (v, act, dep))) \<and>
      (\<forall>k. choose_move (fuel + k) T state = Some (Inr act)) \<and>
      (\<forall>n. choose_move n T state = None \<or> choose_move n T state = Some (Inr act)) \<and>
      (\<forall>k. minimax (fuel + k) T state True False 0 = Some (Inr (w, act', dep'))) \<and>
      v = w"
  proof -
    from exhaustive_agreement[OF p, of NegInf PosInf True False 0]
    obtain fuel v act dep w act' dep' where
      a: "\<forall>k. alphabeta (fuel + k) T state NegInf PosInf True False 0 = Some (Inr (v, act, dep))" and
      b: "\<forall>n. alphabeta n T state NegInf PosInf True False 0 = None \<or>
           alphabeta n T state NegInf PosInf True False 0 = Some (Inr (v, act, dep))" and
      c: "\<forall>k. minimax (fuel + k) T state True False 0 = Some (Inr (w, act', dep'))"
      by blast
    have "\<forall>k. choose_move (fuel + k) T state = Some (Inr act)"
      using a by (simp add: choose_move_def)
    moreover have "\<forall>n. choose_move n T state = None \<or> choose_move n T state = Some (Inr act)"
    proof
      fix n
      from b have "alphabeta n T state NegInf PosInf True False 0 = None \<or>
           alphabeta n T state NegInf PosInf True False 0 = Some (Inr (v, act, dep))" by blast
      then show "choose_move n T state = None \<or> choose_move n T state = Some (Inr act)"
        by (auto simp: choose_move_def)
    qed
    moreover have "v = w"
      using pruning_keeps_the_utility[OF spec[OF a, of 0] spec[OF c, of 0]] .
    ultimately show ?thesis using a c by blast
  qed
  have ok: "frame_ok T (Call state NegInf PosInf True False 0)"
    using p by simp
  have 3: "\<exists>fuel u x nd bs' om' ld'.
       (\<forall>k. alphabeta (fuel + k) T child a' B' False True (d + 1) = Some (Inr (u, x, nd))) \<and>
       best_choice_max u bs action om nd ld = Inr (bs', om', ld') \<and>
       (\<forall>k. max_loop (fuel + k) T ((action, child) # moves) a' B' d bs om ld =
            (if B' \<le> max a' bs' then Some (Inr (bs', om', ld'))
             else max_loop (fuel + k) T moves (max a' bs') B' d bs' om' ld')) \<and>
       (B' \<le> max a' bs' \<or>
        calls T (MaxIter ((action, child) # moves) a' B' d bs om ld)
                (MaxIter moves (max a' bs') B' d bs' om' ld'))"
    if "rtranclp (calls T) (Call state NegInf PosInf True False 0)
       (MaxIter ((action, child) # moves) a' B' d bs om ld)"
    by (rule max_iter_progress[OF reachable_frame_ok[OF that ok]])
  have 4: "\<exists>fuel u x nd bs' om' ld'.
       (\<forall>k. alphabeta (fuel + k) T child a' B' True False (d + 1) = Some (Inr (u, x, nd))) \<and>
       best_choice_min u bs action om nd ld = Inr (bs', om', ld') \<and>
       (\<forall>k. min_loop (fuel + k) T ((action, child) # moves) a' B' d bs om ld =
            (if min B' bs' \<le> a' then Some (Inr (bs', om', ld'))
             else min_loop (fuel + k) T moves a' (min B' bs') d bs' om' ld')) \<and>
       (min B' bs' \<le> a' \<or>
        calls T (MinIter ((action, child) # moves) a' B' d bs om ld)
                (MinIter moves a' (min B' bs') d bs' om' ld'))"
    if "rtranclp (calls T) (Call state NegInf PosInf True False 0)
       (MinIter ((action, child) # moves) a' B' d bs om ld)"
    by (rule min_iter_progress[OF reachable_frame_ok[OF that ok]])
  note 5 = plays_within_result[of T state h a B is_max is_min node_depth]
  from 1 2 3 4 5 show ?thesis by blast
qed

theorem alphabeta_terminates_witness:
  "plays_end tree_ops pruned_game \<and> plays_within tree_ops pruned_game 3 \<and>
   alphabeta 4 tree_ops pruned_game NegInf PosInf True False 0
     = Some (Inr (Fin (1/2), Some (0,1,1), 2)) \<and>
   choose_move 4 tree_ops pruned_game = Some (Inr (Some (0,1,1))) \<and>
   minimax 4 tree_ops pruned_game True False 0 = Some (Inr (Fin (1/2), Some (0,0,1), 3)) \<and>
   plays_end tree_ops tie_or_loss \<and> Fin (1/2) < PosInf \<and>
   alphabeta 3 tree_ops tie_or_loss (Fin (1/2)) PosInf False True 1
     = Some (Inr (Fin (1/2), Some (0,0,2), 2)) \<and>
   minimax 3 tree_ops tie_or_loss False True 1 = Some (Inr (Fin 0, Some (0,2,2), 2)) \<and>
   Fin 0 \<le> Fin (1/2) \<and>
   rtranclp (calls tree_ops) (Call pruned_game NegInf PosInf True False 0)
      (MaxIter [((0,0,1), slow_tie), ((0,1,1), tie_or_loss)] NegInf PosInf 0 NegInf None 0) \<and>
   alphabeta 3 tree_ops slow_tie NegInf PosInf False True 1
     = Some (Inr (Fin (1/2), Some (0,1,2), 3)) \<and>
   best_choice_max (Fin (1/2)) NegInf ((0,0,1) :: T3Action) None 3 0
     = Inr (Fin (1/2), Some (0,0,1), 3) \<and>
   calls tree_ops
      (MaxIter [((0,0,1), slow_tie), ((0,1,1), tie_or_loss)] NegInf PosInf 0 NegInf None 0)
      (MaxIter [((0,1,1), tie_or_loss)] (max NegInf (Fin (1/2))) PosInf 0 (Fin (1/2))
         (Some (0,0,1)) 3) \<and>
   rtranclp (calls tree_ops) (Call pruned_game NegInf PosInf True False 0)
      (MinIter [((0,0,2), tie_leaf), ((0,2,2), win_leaf)] (Fin (1/2)) PosInf 1 PosInf None 1) \<and>
   alphabeta 1 tree_ops tie_leaf (Fin (1/2)) PosInf True False (1 + 1)
     = Some (Inr (Fin (1/2), None, 2)) \<and>
   best_choice_min (Fin (1/2)) PosInf ((0,0,2) :: T3Action) None 2 1
     = Inr (Fin (1/2), Some (0,0,2), 2) \<and>
   min PosInf (Fin (1/2)) \<le> Fin (1/2)"
  using alphabeta_terminates[OF contract_plays_end[OF contract_pruned_game],
      of NegInf PosInf True False 0 "(0,0,1)" slow_tie "[((0,1,1), tie_or_loss)]"
         NegInf PosInf 0 NegInf None 0 3]
    alphabeta_terminates[OF contract_plays_end[OF contract_pruned_game],
      of NegInf PosInf True False 0 "(0,0,2)" tie_leaf "[((0,2,2), win_leaf)]"
         "Fin (1/2)" PosInf 1 PosInf None 1]
    alphabeta_terminates[OF plays_end_tie_or_loss, of "Fin (1/2)" PosInf False True 1]
    contract_plays_end[OF contract_pruned_game] plays_end_tie_or_loss
    pruned_game_search pruned_game_minimax tie_or_loss_search slow_tie_search
    pruned_game_first_loop pruned_game_loop_goes_on pruned_game_min_loop
    pruned_game_bounded
  by (simp add: choose_move_def best_choice_max_def best_choice_min_def tree_ops_def
      tie_leaf_def)

subsection \<open>The depth tie-break under pruning\<close>

lemma contract_depth_game: "contract tree_ops depth_game"
  by (simp add: contract_tree_ops depth_game_def deep_or_shallow_tie_def slow_tie_def
      last_move_def tie_leaf_def)

text \<open>
  Claim C3 says that a candidate of equal utility and strictly smaller depth replaces the
  incumbent, so that among children of equal utility the engine selects the action whose
  decisive terminal lies at the smallest depth. The helpers do the first
  (\<open>best_choice_smaller_depth\<close>); the engine does not do the second. On \<open>depth_game\<close>, which
  satisfies the contract, both moves are worth a tie, for the exhaustive search as for the
  pruned one; the tie after \<open>(0,0,1)\<close> lies at depth 3, the nearest tie after \<open>(0,1,1)\<close> at
  depth 2, and the exhaustive search with the same helpers returns \<open>(0,1,1)\<close> with depth 2:
  the helper, given depth 2 against the incumbent's 3, takes the candidate. In the pruned
  search the min node after \<open>(0,1,1)\<close> is searched with \<^verbatim>\<open>a\<close> = 0.5: its first reply ties
  at depth 3, \<^verbatim>\<open>B\<close> becomes 0.5 and the loop breaks on \<^verbatim>\<open>B <= a\<close> before the reply that ties
  at depth 2 is seen. The root's helper is given depth 3 against the incumbent's 3 and
  keeps \<open>(0,0,1)\<close>, as \<open>(0,1,1)\<close> is not the smaller action: \<^verbatim>\<open>choose\<close> returns \<open>(0,0,1)\<close>,
  whose terminal lies deeper.
\<close>

theorem pruning_hides_the_nearer_terminal:
  "contract tree_ops depth_game \<and>
   minimax 3 tree_ops slow_tie False True 1 = Some (Inr (Fin (1/2), Some (0,1,2), 3)) \<and>
   minimax 3 tree_ops deep_or_shallow_tie False True 1
     = Some (Inr (Fin (1/2), Some (0,2,2), 2)) \<and>
   minimax 4 tree_ops depth_game True False 0 = Some (Inr (Fin (1/2), Some (0,1,1), 2)) \<and>
   best_choice_max (Fin (1/2)) (Fin (1/2)) ((0,1,1) :: T3Action) (Some (0,0,1)) 2 3
     = Inr (Fin (1/2), Some (0,1,1), 2) \<and>
   alphabeta 3 tree_ops slow_tie NegInf PosInf False True 1
     = Some (Inr (Fin (1/2), Some (0,1,2), 3)) \<and>
   alphabeta 3 tree_ops deep_or_shallow_tie NegInf PosInf False True 1
     = Some (Inr (Fin (1/2), Some (0,2,2), 2)) \<and>
   alphabeta 3 tree_ops deep_or_shallow_tie (Fin (1/2)) PosInf False True 1
     = Some (Inr (Fin (1/2), Some (0,0,2), 3)) \<and>
   best_choice_max (Fin (1/2)) (Fin (1/2)) ((0,1,1) :: T3Action) (Some (0,0,1)) 3 3
     = Inr (Fin (1/2), Some (0,0,1), 3) \<and>
   alphabeta 4 tree_ops depth_game NegInf PosInf True False 0
     = Some (Inr (Fin (1/2), Some (0,0,1), 3)) \<and>
   choose_move 4 tree_ops depth_game = Some (Inr (Some (0,0,1)))"
  using contract_depth_game
  by (simp add: choose_move_def tree_ops_def depth_game_def deep_or_shallow_tie_def slow_tie_def
      last_move_def tie_leaf_def best_choice_max_def best_choice_min_def
      eval_nat_numeral max_loop.simps(2) min_loop.simps(2))

end
